theory Spec2Isabelle
  imports Main "HOL-Library.AList" "HOL-Library.Multiset"
begin

section \<open>Data model\<close>

text \<open>
  The repository (aig-cube) is a Cube-and-Conquer SAT solver on And-Inverter Graphs.
  Its circuits are objects of the third-party library cirbo, which is not part of
  the repository's sources; the parts of cirbo's circuit container that the
  repository calls are modelled below from section 4.1 of the specification, and every
  such definition says so. Everything else is translated from the Python sources
  (cnf.py, circuit_instance.py, remove_constant_gates.py, solver.py,
  scripts/solve_external.py).
\<close>

type_synonym Label = string
type_synonym Lit = int
type_synonym Clause = "Lit list"
type_synonym CnfRaw = "Clause list"
type_synonym VarMap = "(Label \<times> Lit) list"

text \<open>Python exceptions are values; \<open>CircuitError\<close> stands for the exceptions cirbo raises.\<close>

datatype error = ValueError | RuntimeError | AssertionError | KeyError | IndexError
  | TypeError | CircuitError

text \<open>
  Gate types. The repository itself uses INPUT, AND, NOT, ALWAYS_TRUE, ALWAYS_FALSE and
  (in the parser) IFF; cirbo has further binary types, of which OR, NAND, NOR, XOR and
  NXOR are kept here so that "a gate of another type" is an input the model can receive.
\<close>

datatype GateType = INPUT | AND | NOT | ALWAYS_TRUE | ALWAYS_FALSE
  | IFF | OR | NAND | NOR | XOR | NXOR

record Gate =
  label :: Label
  gate_type :: GateType
  operands :: "Label list"

text \<open>
  A circuit: \<open>gates\<close> is a Python dict (label to gate, insertion order kept), hence an
  association list; \<open>users\<close> is the reverse index.
\<close>

record Circuit =
  gates :: "(Label \<times> Gate) list"
  inputs :: "Label list"
  outputs :: "Label list"
  users :: "(Label \<times> Label list) list"

definition mk_gate :: "Label \<Rightarrow> GateType \<Rightarrow> Label list \<Rightarrow> Gate" where
  "mk_gate l t ops = \<lparr>label = l, gate_type = t, operands = ops\<rparr>"

definition empty_circuit :: Circuit where
  "empty_circuit = \<lparr>gates = [], inputs = [], outputs = [], users = []\<rparr>"

section \<open>The circuit container (cirbo)\<close>

text \<open>
  Modelled from the spec: cirbo's \<open>Circuit.get_gate\<close>, which is not among the sources.
  Section 3 of the specification: gates are keyed by label. A missing label raises.
\<close>

definition get_gate :: "Circuit \<Rightarrow> Label \<Rightarrow> error + Gate" where
  "get_gate c l = (case map_of (gates c) l of None \<Rightarrow> Inl CircuitError | Some g \<Rightarrow> Inr g)"

text \<open>
  Modelled from the spec: cirbo's \<open>Circuit.get_gate_users\<close> (section 3: for each label
  the sequence of gate labels that reference it as an operand).
\<close>

definition get_gate_users :: "Circuit \<Rightarrow> Label \<Rightarrow> Label list" where
  "get_gate_users c l = (case map_of (users c) l of None \<Rightarrow> [] | Some us \<Rightarrow> us)"

text \<open>
  Modelled from the spec: cirbo's \<open>Circuit._remove_user\<close> (section 4.1: maintain the
  reverse index when an edge is severed). The user is dropped from the label's users.
\<close>

definition remove_user :: "Circuit \<Rightarrow> Label \<Rightarrow> Label \<Rightarrow> Circuit" where
  "remove_user c gate_label user =
     c\<lparr>users := map (\<lambda>(l, us). if l = gate_label then (l, removeAll user us) else (l, us))
                     (users c)\<rparr>"

definition add_user :: "Label \<Rightarrow> (Label \<times> Label list) list \<Rightarrow> Label \<Rightarrow> (Label \<times> Label list) list" where
  "add_user user us operand =
     (case map_of us operand of
        None \<Rightarrow> us @ [(operand, [user])]
      | Some old \<Rightarrow> AList.update operand (if user \<in> set old then old else old @ [user]) us)"

text \<open>
  Modelled from the spec: the arity constraint of section 3 (INPUT and the constants
  have no operand, NOT has one, AND exactly two); IFF is unary and the other binary
  types take two operands.
\<close>

fun arity_ok :: "GateType \<Rightarrow> nat \<Rightarrow> bool" where
  "arity_ok INPUT n = (n = 0)"
| "arity_ok ALWAYS_TRUE n = (n = 0)"
| "arity_ok ALWAYS_FALSE n = (n = 0)"
| "arity_ok NOT n = (n = 1)"
| "arity_ok IFF n = (n = 1)"
| "arity_ok t n = (n = 2)"

text \<open>
  Modelled from the spec: cirbo's \<open>Circuit.emplace_gate\<close> (section 4.1: insert a gate;
  fails if the label already exists, if any operand is undefined, or if the arity is
  wrong for the type). The gate is appended, the reverse index gets one edge per
  operand, and an INPUT gate joins \<open>inputs\<close>.
\<close>

definition emplace_gate :: "Circuit \<Rightarrow> Label \<Rightarrow> GateType \<Rightarrow> Label list \<Rightarrow> error + Circuit" where
  "emplace_gate c l t ops =
     (if l \<in> fst ` set (gates c) then Inl CircuitError
      else if \<not> list_all (\<lambda>op. op \<in> fst ` set (gates c)) ops then Inl CircuitError
      else if \<not> arity_ok t (length ops) then Inl CircuitError
      else Inr (c\<lparr>gates := gates c @ [(l, mk_gate l t ops)],
                  users := foldl (add_user l) (users c) ops,
                  inputs := (if t = INPUT then inputs c @ [l] else inputs c)\<rparr>))"

text \<open>
  Modelled from the spec: cirbo's \<open>Circuit.set_inputs\<close> and \<open>Circuit.set_outputs\<close>
  (section 4.1: designate the labels; each label must exist).
\<close>

definition set_inputs :: "Circuit \<Rightarrow> Label list \<Rightarrow> error + Circuit" where
  "set_inputs c ls =
     (if list_all (\<lambda>l. l \<in> fst ` set (gates c)) ls then Inr (c\<lparr>inputs := ls\<rparr>)
      else Inl CircuitError)"

definition set_outputs :: "Circuit \<Rightarrow> Label list \<Rightarrow> error + Circuit" where
  "set_outputs c ls =
     (if list_all (\<lambda>l. l \<in> fst ` set (gates c)) ls then Inr (c\<lparr>outputs := ls\<rparr>)
      else Inl CircuitError)"

text \<open>
  Modelled from the spec: cirbo's \<open>Circuit.replace_inputs\<close> (section 4.1: replace the
  named INPUT gates with ALWAYS_TRUE / ALWAYS_FALSE constants; removes those labels
  from \<open>inputs\<close> but preserves user edges). A label that is not an input raises.
\<close>

definition replace_input :: "GateType \<Rightarrow> Label \<Rightarrow> Circuit \<Rightarrow> Circuit" where
  "replace_input t l c =
     c\<lparr>gates := AList.update l (mk_gate l t []) (gates c), inputs := removeAll l (inputs c)\<rparr>"

definition replace_inputs :: "Circuit \<Rightarrow> Label list \<Rightarrow> Label list \<Rightarrow> error + Circuit" where
  "replace_inputs c inputs_to_true inputs_to_false =
     (if list_all (\<lambda>l. l \<in> set (inputs c) \<and> l \<in> fst ` set (gates c))
           (inputs_to_true @ inputs_to_false)
      then Inr (fold (replace_input ALWAYS_FALSE) inputs_to_false
                  (fold (replace_input ALWAYS_TRUE) inputs_to_true c))
      else Inl CircuitError)"

text \<open>Modelled from the spec: cirbo's size properties (numbers of gates, inputs, outputs).\<close>

definition circuit_size :: "Circuit \<Rightarrow> nat" where
  "circuit_size c = length (gates c)"

definition input_size :: "Circuit \<Rightarrow> nat" where
  "input_size c = length (inputs c)"

definition output_size :: "Circuit \<Rightarrow> nat" where
  "output_size c = length (outputs c)"

text \<open>
  Modelled from the spec: the semantic operator of a gate (section 3: NOT(x) is the
  negation, AND(a,b) the conjunction), with the usual meaning of the other types. A
  call with the wrong number of arguments raises.
\<close>

fun operator :: "GateType \<Rightarrow> bool list \<Rightarrow> error + bool" where
  "operator ALWAYS_TRUE [] = Inr True"
| "operator ALWAYS_FALSE [] = Inr False"
| "operator NOT [a] = Inr (\<not> a)"
| "operator IFF [a] = Inr a"
| "operator AND [a, b] = Inr (a \<and> b)"
| "operator OR [a, b] = Inr (a \<or> b)"
| "operator NAND [a, b] = Inr (\<not> (a \<and> b))"
| "operator NOR [a, b] = Inr (\<not> (a \<or> b))"
| "operator XOR [a, b] = Inr (a \<noteq> b)"
| "operator NXOR [a, b] = Inr (a = b)"
| "operator t args = Inl TypeError"

text \<open>
  Modelled from the spec: cirbo's \<open>Circuit.top_sort(inverse=True)\<close> (section 4.1: yield
  the gates in topological order, from inputs and constants toward outputs). The next
  gate yielded is the first gate, in insertion order, all of whose operands have been
  yielded; a circuit in which no gate is ready (a cycle, or an operand that is no gate)
  raises.
\<close>

function top_sort_from :: "(Label \<times> Gate) list \<Rightarrow> Label list \<Rightarrow> error + Gate list" where
  "top_sort_from pending emitted =
     (if pending = [] then Inr []
      else case find (\<lambda>p. set (operands (snd p)) \<subseteq> set emitted) pending of
             None \<Rightarrow> Inl CircuitError
           | Some p \<Rightarrow>
               (case top_sort_from (remove1 p pending) (emitted @ [fst p]) of
                  Inl e \<Rightarrow> Inl e
                | Inr gs \<Rightarrow> Inr (snd p # gs)))"
  by pat_completeness auto
termination
proof (relation "measure (\<lambda>(pending, emitted). length pending)")
  show "wf (measure (\<lambda>(pending, emitted). length pending))" by simp
next
  fix pending :: "(Label \<times> Gate) list" and emitted :: "Label list" and x2
  assume "pending \<noteq> []"
    and f: "find (\<lambda>p. set (operands (snd p)) \<subseteq> set emitted) pending = Some x2"
  from f have "x2 \<in> set pending"
    by (auto simp: find_Some_iff)
  then show "((remove1 x2 pending, emitted @ [fst x2]), (pending, emitted))
             \<in> measure (\<lambda>(pending, emitted). length pending)"
    using length_pos_if_in_set [of x2 pending] by (simp add: length_remove1)
qed

definition top_sort_inverse :: "Circuit \<Rightarrow> error + Gate list" where
  "top_sort_inverse c = top_sort_from (gates c) []"

section \<open>Constant propagation (remove_constant_gates.py)\<close>

text \<open>
  The local state of \<open>RemoveConstantGates._transform\<close>: the circuit under construction
  and the two dictionaries \<open>const_map\<close> and \<open>label_remap\<close> (a later binding of a key
  stands before an earlier one; \<open>map_of\<close> reads the first).
\<close>

record RcgState =
  new_circuit :: Circuit
  const_map :: "(Label \<times> bool) list"
  label_remap :: "(Label \<times> Label) list"

definition resolve_label :: "(Label \<times> Label) list \<Rightarrow> Label \<Rightarrow> Label" where
  "resolve_label remap lbl = (case map_of remap lbl of None \<Rightarrow> lbl | Some l \<Rightarrow> l)"

definition set_const :: "RcgState \<Rightarrow> Label \<Rightarrow> bool \<Rightarrow> RcgState" where
  "set_const st l v = st\<lparr>const_map := (l, v) # const_map st\<rparr>"

definition set_remap :: "RcgState \<Rightarrow> Label \<Rightarrow> Label \<Rightarrow> RcgState" where
  "set_remap st l l' = st\<lparr>label_remap := (l, l') # label_remap st\<rparr>"

definition emplace_new :: "RcgState \<Rightarrow> Label \<Rightarrow> GateType \<Rightarrow> Label list \<Rightarrow> error + RcgState" where
  "emplace_new st l t ops =
     (case emplace_gate (new_circuit st) l t ops of
        Inl e \<Rightarrow> Inl e
      | Inr c \<Rightarrow> Inr (st\<lparr>new_circuit := c\<rparr>))"

text \<open>The branch of the loop body for exactly one constant operand out of two.\<close>

definition one_const_step :: "RcgState \<Rightarrow> Gate \<Rightarrow> Label list \<Rightarrow> nat \<Rightarrow> error + RcgState" where
  "one_const_step st g resolved_operands const_idx =
     (case map_of (const_map st) (resolved_operands ! const_idx) of
        None \<Rightarrow> Inl KeyError
      | Some const_val \<Rightarrow>
          let non_const_idx = 1 - const_idx;
              non_const_op = resolved_operands ! non_const_idx;
              args0 = [False, False] [const_idx := const_val, non_const_idx := False];
              args1 = [False, False] [const_idx := const_val, non_const_idx := True]
          in case operator (gate_type g) args0 of
               Inl e \<Rightarrow> Inl e
             | Inr val0 \<Rightarrow>
                 (case operator (gate_type g) args1 of
                    Inl e \<Rightarrow> Inl e
                  | Inr val1 \<Rightarrow>
                      if val0 = val1 then Inr (set_const st (label g) val0)
                      else if \<not> val0 \<and> val1 then Inr (set_remap st (label g) non_const_op)
                      else (case map_of (gates (new_circuit st)) non_const_op of
                              None \<Rightarrow> emplace_new st (label g) NOT [non_const_op]
                            | Some operand_gate \<Rightarrow>
                                if gate_type operand_gate = NOT then
                                  (case operands operand_gate of
                                     [] \<Rightarrow> Inl IndexError
                                   | op0 # _ \<Rightarrow> Inr (set_remap st (label g) op0))
                                else emplace_new st (label g) NOT [non_const_op])))"

text \<open>The branch for a gate all of whose operands are constant.\<close>

definition all_const_step :: "RcgState \<Rightarrow> Gate \<Rightarrow> Label list \<Rightarrow> error + RcgState" where
  "all_const_step st g resolved_operands =
     (if list_all (\<lambda>op. map_of (const_map st) op \<noteq> None) resolved_operands then
        (case operator (gate_type g) (map (\<lambda>op. the (map_of (const_map st) op)) resolved_operands) of
           Inl e \<Rightarrow> Inl e
         | Inr val \<Rightarrow> Inr (set_const st (label g) val))
      else Inl KeyError)"

text \<open>One iteration of the loop over \<open>circuit.top_sort(inverse=True)\<close>.\<close>

definition rcg_step :: "RcgState \<Rightarrow> Gate \<Rightarrow> error + RcgState" where
  "rcg_step st g =
     (let resolved_operands = map (resolve_label (label_remap st)) (operands g) in
      if gate_type g = INPUT then emplace_new st (label g) (gate_type g) (operands g)
      else if gate_type g = ALWAYS_TRUE then Inr (set_const st (label g) True)
      else if gate_type g = ALWAYS_FALSE then Inr (set_const st (label g) False)
      else
        let const_indices =
              filter (\<lambda>i. map_of (const_map st) (resolved_operands ! i) \<noteq> None)
                [0 ..< length resolved_operands]
        in if const_indices = [] then
             emplace_new st (label g) (gate_type g) resolved_operands
           else if length const_indices = 1 \<and> length resolved_operands = 2 then
             one_const_step st g resolved_operands (hd const_indices)
           else if length const_indices = length resolved_operands then
             all_const_step st g resolved_operands
           else Inl RuntimeError)"

fun rcg_loop :: "RcgState \<Rightarrow> Gate list \<Rightarrow> error + RcgState" where
  "rcg_loop st [] = Inr st"
| "rcg_loop st (g # gs) =
     (case rcg_step st g of Inl e \<Rightarrow> Inl e | Inr st' \<Rightarrow> rcg_loop st' gs)"

text \<open>
  \<open>RemoveConstantGates._transform\<close>. The topological order is a parameter \<open>ts\<close>, so that
  results about the transformer can be stated for any order cirbo may yield;
  \<open>RemoveConstantGates\<close> below runs it with the order modelled above.
\<close>

definition transform_with :: "(Circuit \<Rightarrow> error + Gate list) \<Rightarrow> Circuit \<Rightarrow> error + Circuit" where
  "transform_with ts c =
     (if \<not> list_all (\<lambda>p. length (operands (snd p)) \<le> 2) (gates c) then Inl ValueError
      else case ts c of
        Inl e \<Rightarrow> Inl e
      | Inr order \<Rightarrow>
          (case rcg_loop \<lparr>new_circuit = empty_circuit, const_map = [], label_remap = []\<rparr> order of
             Inl e \<Rightarrow> Inl e
           | Inr st \<Rightarrow>
               let final_inputs = filter (\<lambda>i. map_of (const_map st) i = None) (inputs c) in
               (case set_inputs (new_circuit st) final_inputs of
                  Inl e \<Rightarrow> Inl e
                | Inr c1 \<Rightarrow>
                    let final_outputs =
                          filter (\<lambda>out. map_of (const_map st) out = None)
                            (map (resolve_label (label_remap st)) (outputs c))
                    in set_outputs c1 final_outputs)))"

definition RemoveConstantGates :: "Circuit \<Rightarrow> error + Circuit" where
  "RemoveConstantGates c = transform_with top_sort_inverse c"

section \<open>Tseytin encoding (cnf.py)\<close>

text \<open>
  The clause list of a \<open>Cnf\<close> object is a Python list of lists. The encoder fills it
  with integers; \<open>assign\<close> appends to it what \<open>GateConfig.idx\<close> holds, which is \<open>None\<close> for
  a gate the encoder never reached. A stored literal is therefore an integer or \<open>None\<close>.
\<close>

type_synonym PyClause = "Lit option list"

definition int_clauses :: "CnfRaw \<Rightarrow> PyClause list" where
  "int_clauses cs = map (map Some) cs"

record Cnf =
  cnf_raw :: "PyClause list"
  var_map :: VarMap

definition add_clause :: "Cnf \<Rightarrow> PyClause \<Rightarrow> Cnf" where
  "add_clause f clause = f\<lparr>cnf_raw := cnf_raw f @ [clause]\<rparr>"

definition get_var :: "Cnf \<Rightarrow> Label \<Rightarrow> Lit option" where
  "get_var f l = map_of (var_map f) l"

text \<open>
  The local state of \<open>tseytin_transformation\<close>: the counter \<open>next_lit\<close>, the
  \<open>defaultdict\<close> \<open>saved_lits\<close> (in insertion order) and the clause list \<open>cnf\<close>.
\<close>

record TseytinState =
  next_lit :: Lit
  saved_lits :: VarMap
  clauses_acc :: CnfRaw

text \<open>
  \<open>saved_lits[label]\<close>: a \<open>defaultdict\<close> read creates the entry, with a fresh literal
  from \<open>_new_lit\<close>, when the key is missing.
\<close>

definition saved_lit :: "TseytinState \<Rightarrow> Label \<Rightarrow> Lit \<times> TseytinState" where
  "saved_lit s l =
     (case map_of (saved_lits s) l of
        Some v \<Rightarrow> (v, s)
      | None \<Rightarrow> (next_lit s + 1,
                 s\<lparr>next_lit := next_lit s + 1, saved_lits := saved_lits s @ [(l, next_lit s + 1)]\<rparr>))"

text \<open>\<open>[saved_lits[op] for op in gate.operands]\<close>\<close>

fun saved_lits_of :: "TseytinState \<Rightarrow> Label list \<Rightarrow> Lit list \<times> TseytinState" where
  "saved_lits_of s [] = ([], s)"
| "saved_lits_of s (op # ops) =
     (let (v, s1) = saved_lit s op; (vs, s2) = saved_lits_of s1 ops in (v # vs, s2))"

definition append_clauses :: "TseytinState \<Rightarrow> CnfRaw \<Rightarrow> TseytinState" where
  "append_clauses s cs = s\<lparr>clauses_acc := clauses_acc s @ cs\<rparr>"

text \<open>
  The clauses appended for a gate with literal \<open>top\<close> (here \<open>top_lit\<close>) and operand literals \<open>lits\<close>, in
  the order of the source; an AND gate gets one binary clause per operand and then the
  clause \<open>common\<close>.
\<close>

definition gate_clauses :: "GateType \<Rightarrow> Lit \<Rightarrow> Lit list \<Rightarrow> error + CnfRaw" where
  "gate_clauses t top_lit lits =
     (if t = INPUT then Inr []
      else if t = ALWAYS_TRUE then Inr [[top_lit]]
      else if t = ALWAYS_FALSE then Inr [[- top_lit]]
      else if t = NOT then
        (case lits of [] \<Rightarrow> Inl IndexError | l0 # _ \<Rightarrow> Inr [[l0, top_lit], [- l0, - top_lit]])
      else if t = AND then
        Inr (map (\<lambda>lit. [lit, - top_lit]) lits @ [top_lit # map uminus lits])
      else Inl ValueError)"

text \<open>The part of the loop body that runs when an expanded entry is popped.\<close>

definition encode_gate :: "TseytinState \<Rightarrow> Gate \<Rightarrow> Label \<Rightarrow> error + TseytinState" where
  "encode_gate s gate l =
     (let (lits, s1) = saved_lits_of s (operands gate);
          (top_lit, s2) = saved_lit s1 l
      in case gate_clauses (gate_type gate) top_lit lits of
           Inl e \<Rightarrow> Inl e
         | Inr cs \<Rightarrow> Inr (append_clauses s2 cs))"

text \<open>
  The \<open>while stack\<close> loop of \<open>_process_all\<close>. The head of the list is the top of the
  Python stack. The loop need not end on a cyclic graph, so not returning is \<open>None\<close>.
\<close>

partial_function (option) process_stack ::
  "Circuit \<Rightarrow> (Label \<times> bool) list \<Rightarrow> TseytinState \<Rightarrow> (error + TseytinState) option" where
  "process_stack c stack s =
     (case stack of
        [] \<Rightarrow> Some (Inr s)
      | (l, expanded) # rest \<Rightarrow>
          if map_of (saved_lits s) l \<noteq> None then process_stack c rest s
          else if \<not> expanded then
            (case get_gate c l of
               Inl e \<Rightarrow> Some (Inl e)
             | Inr gate \<Rightarrow>
                 process_stack c
                   (map (\<lambda>op. (op, False))
                      (filter (\<lambda>op. map_of (saved_lits s) op = None) (operands gate))
                    @ (l, True) # rest) s)
          else
            (case get_gate c l of
               Inl e \<Rightarrow> Some (Inl e)
             | Inr gate \<Rightarrow>
                 (case encode_gate s gate l of
                    Inl e \<Rightarrow> Some (Inl e)
                  | Inr s' \<Rightarrow> process_stack c rest s')))"

declare process_stack.simps [code]

text \<open>\<open>_process_all(root)\<close> followed by \<open>cnf.append([out_lit])\<close>.\<close>

definition process_root :: "Circuit \<Rightarrow> TseytinState \<Rightarrow> Label \<Rightarrow> (error + TseytinState) option" where
  "process_root c s root =
     (case process_stack c [(root, False)] s of
        None \<Rightarrow> None
      | Some (Inl e) \<Rightarrow> Some (Inl e)
      | Some (Inr s1) \<Rightarrow>
          (let (out_lit, s2) = saved_lit s1 root in Some (Inr (append_clauses s2 [[out_lit]]))))"

fun process_roots :: "Circuit \<Rightarrow> TseytinState \<Rightarrow> Label list \<Rightarrow> (error + TseytinState) option" where
  "process_roots c s [] = Some (Inr s)"
| "process_roots c s (r # rs) =
     (case process_root c s r of
        None \<Rightarrow> None
      | Some (Inl e) \<Rightarrow> Some (Inl e)
      | Some (Inr s') \<Rightarrow> process_roots c s' rs)"

definition init_lits :: "Circuit \<Rightarrow> TseytinState" where
  "init_lits c =
     fold (\<lambda>input_label s. snd (saved_lit s input_label)) (inputs c)
       \<lparr>next_lit = 0, saved_lits = [], clauses_acc = []\<rparr>"

definition tseytin_transformation :: "Circuit \<Rightarrow> (error + Cnf) option" where
  "tseytin_transformation c =
     (case process_roots c (init_lits c) (outputs c) of
        None \<Rightarrow> None
      | Some (Inl e) \<Rightarrow> Some (Inl e)
      | Some (Inr s) \<Rightarrow> Some (Inr \<lparr>cnf_raw = int_clauses (clauses_acc s), var_map = saved_lits s\<rparr>))"

section \<open>The Circuit-SAT instance (circuit_instance.py)\<close>

datatype AssignmentStatus = OK | CONFLICT

text \<open>
  \<open>GateConfig\<close>. The field \<open>idx\<close> is what \<open>Cnf.get_var\<close> returned, which is \<open>None\<close> for a
  gate the encoder never reached; \<open>gc_value\<close> is the source's field \<open>value\<close>.
\<close>

record GateConfig =
  gc_label :: Label
  idx :: "Lit option"
  is_input :: bool
  gc_value :: "bool option"

record CircuitSatInstance =
  circuit :: Circuit
  cnf :: Cnf
  gates_config :: "(Label \<times> GateConfig) list"

definition is_constant :: "GateType \<Rightarrow> bool" where
  "is_constant t = (t = ALWAYS_TRUE \<or> t = ALWAYS_FALSE)"

text \<open>\<open>_check_circuit\<close>\<close>

definition gate_supported :: "Gate \<Rightarrow> bool" where
  "gate_supported g =
     (if gate_type g = INPUT then True
      else if gate_type g = AND then length (operands g) = 2
      else if gate_type g = NOT then length (operands g) = 1
      else False)"

fun check_gates :: "Gate list \<Rightarrow> error + unit" where
  "check_gates [] = Inr ()"
| "check_gates (g # gs) = (if gate_supported g then check_gates gs else Inl ValueError)"

definition check_circuit :: "Circuit \<Rightarrow> error + unit" where
  "check_circuit c = check_gates (map snd (gates c))"

text \<open>\<open>CircuitSatInstance.__init__\<close>\<close>

definition init_gates_config :: "Circuit \<Rightarrow> Cnf \<Rightarrow> error + (Label \<times> GateConfig) list" where
  "init_gates_config c f =
     (if list_all (\<lambda>l. map_of (gates c) l \<noteq> None) (map fst (gates c)) then
        Inr (map (\<lambda>l. (l, \<lparr>gc_label = l, idx = get_var f l,
                             is_input = (gate_type (the (map_of (gates c) l)) = INPUT),
                             gc_value = None\<rparr>))
               (map fst (gates c)))
      else Inl CircuitError)"

definition new_instance :: "Circuit \<Rightarrow> (error + CircuitSatInstance) option" where
  "new_instance c =
     (case check_circuit c of
        Inl e \<Rightarrow> Some (Inl e)
      | Inr _ \<Rightarrow>
          (case tseytin_transformation c of
             None \<Rightarrow> None
           | Some (Inl e) \<Rightarrow> Some (Inl e)
           | Some (Inr f) \<Rightarrow>
               (case init_gates_config c f of
                  Inl e \<Rightarrow> Some (Inl e)
                | Inr gc \<Rightarrow> Some (Inr \<lparr>circuit = c, cnf = f, gates_config = gc\<rparr>))))"

text \<open>\<open>simplify\<close>: \<open>Transformer.apply_transformers\<close> with the one transformer.\<close>

definition simplify :: "CircuitSatInstance \<Rightarrow> error + CircuitSatInstance" where
  "simplify s =
     (case RemoveConstantGates (circuit s) of
        Inl e \<Rightarrow> Inl e
      | Inr c \<Rightarrow> Inr (s\<lparr>circuit := c\<rparr>))"

text \<open>
  \<open>_assign_and_propagate\<close>. \<open>idx_of\<close> is \<open>self.gates_config[label].idx\<close>, which raises
  \<open>KeyError\<close> for a missing label; \<open>negated\<close> is Python's unary minus, which raises
  \<open>TypeError\<close> on \<open>None\<close>. For a gate whose \<open>idx\<close> is \<open>None\<close> the value true appends the
  clause \<open>[None]\<close> and goes on.
  \<open>assign_operands\<close> is the loop over the operands of an AND gate assigned true.
\<close>

definition set_value :: "(Label \<times> GateConfig) list \<Rightarrow> Label \<Rightarrow> bool \<Rightarrow> (Label \<times> GateConfig) list" where
  "set_value gc l v = map (\<lambda>(k, g). if k = l then (k, g\<lparr>gc_value := Some v\<rparr>) else (k, g)) gc"

definition idx_of :: "(Label \<times> GateConfig) list \<Rightarrow> Label \<Rightarrow> error + Lit option" where
  "idx_of gc l = (case map_of gc l of None \<Rightarrow> Inl KeyError | Some g \<Rightarrow> Inr (idx g))"

definition negated :: "Lit option \<Rightarrow> error + Lit option" where
  "negated lit = (case lit of None \<Rightarrow> Inl TypeError | Some n \<Rightarrow> Inr (Some (- n)))"

definition replace_by_constant :: "CircuitSatInstance \<Rightarrow> Gate \<Rightarrow> Label \<Rightarrow> bool \<Rightarrow> CircuitSatInstance" where
  "replace_by_constant s gate l v =
     (let c1 = fold (\<lambda>operand c. remove_user c operand l) (operands gate) (circuit s);
          new_gate = mk_gate l (if v then ALWAYS_TRUE else ALWAYS_FALSE) []
      in s\<lparr>circuit := c1\<lparr>gates := AList.update l new_gate (gates c1)\<rparr>\<rparr>)"

definition non_constants :: "CircuitSatInstance \<Rightarrow> nat" where
  "non_constants s = length (filter (\<lambda>p. \<not> is_constant (gate_type (snd p))) (gates (circuit s)))"

function assign_and_propagate ::
    "CircuitSatInstance \<Rightarrow> Label \<Rightarrow> bool \<Rightarrow> error + AssignmentStatus \<times> CircuitSatInstance"
  and assign_operands ::
    "CircuitSatInstance \<Rightarrow> Label list \<Rightarrow> error + AssignmentStatus \<times> CircuitSatInstance"
where
  "assign_and_propagate s l v =
     (case get_gate (circuit s) l of
        Inl e \<Rightarrow> Inl e
      | Inr gate \<Rightarrow>
          if is_constant (gate_type gate) then
            (if (gate_type gate = ALWAYS_TRUE) \<noteq> v then Inr (CONFLICT, s) else Inr (OK, s))
          else
            (case idx_of (gates_config s) l of
               Inl e \<Rightarrow> Inl e
             | Inr lit \<Rightarrow>
               (case (if v then Inr lit else negated lit) of
                  Inl e \<Rightarrow> Inl e
                | Inr unit_lit \<Rightarrow>
                 let s1 = s\<lparr>cnf := add_clause (cnf s) [unit_lit]\<rparr> in
                 if gate_type gate = INPUT then
                   (case replace_inputs (circuit s1) (if v then [l] else []) (if v then [] else [l]) of
                      Inl e \<Rightarrow> Inl e
                    | Inr c \<Rightarrow>
                        Inr (OK, s1\<lparr>circuit := c, gates_config := set_value (gates_config s1) l v\<rparr>))
                 else
                   let s2 = replace_by_constant s1 gate l v in
                   if gate_type gate = NOT then
                     (case operands gate of
                        [] \<Rightarrow> Inl IndexError
                      | op0 # _ \<Rightarrow> assign_and_propagate s2 op0 (\<not> v))
                   else if gate_type gate = AND \<and> v then assign_operands s2 (operands gate)
                   else if gate_type gate = AND \<and> \<not> v then
                     (if length (operands gate) \<noteq> 2 then Inl AssertionError
                      else case idx_of (gates_config s2) (operands gate ! 0) of
                        Inl e \<Rightarrow> Inl e
                      | Inr lit0 \<Rightarrow>
                          (case idx_of (gates_config s2) (operands gate ! 1) of
                             Inl e \<Rightarrow> Inl e
                           | Inr lit1 \<Rightarrow>
                               (case negated lit0 of
                                  Inl e \<Rightarrow> Inl e
                                | Inr n0 \<Rightarrow>
                                    (case negated lit1 of
                                       Inl e \<Rightarrow> Inl e
                                     | Inr n1 \<Rightarrow>
                                         Inr (OK, s2\<lparr>cnf := add_clause (cnf s2) [n0, n1]\<rparr>)))))
                   else Inl RuntimeError)))"
| "assign_operands s [] = Inr (OK, s)"
| "assign_operands s (operand_label # rest) =
     (case assign_and_propagate s operand_label True of
        Inl e \<Rightarrow> Inl e
      | Inr (status, s') \<Rightarrow>
          if status \<noteq> OK then Inr (status, s') else assign_operands s' rest)"
  by pat_completeness auto

text \<open>
  Termination: every recursive call is made after the gate has been replaced by a
  constant, so the number of non-constant gates decreases; the second iteration of the
  loop over the operands starts from the state the first one returned, which has no
  more non-constant gates than before.
\<close>

lemma update_const_count:
  "map_of xs l = Some g \<Longrightarrow> \<not> is_constant (gate_type g) \<Longrightarrow> is_constant (gate_type g') \<Longrightarrow>
   length (filter (\<lambda>p. \<not> is_constant (gate_type (snd p))) (AList.update l g' xs))
   < length (filter (\<lambda>p. \<not> is_constant (gate_type (snd p))) xs)"
  by (induction xs) (auto split: if_splits)

lemma update_const_count_le:
  "is_constant (gate_type g') \<Longrightarrow>
   length (filter (\<lambda>p. \<not> is_constant (gate_type (snd p))) (AList.update l g' xs))
   \<le> length (filter (\<lambda>p. \<not> is_constant (gate_type (snd p))) xs)"
  by (induction xs) (auto split: if_splits)

lemma gates_fold_remove_user [simp]:
  "gates (fold (\<lambda>operand c. remove_user c operand l) ops c) = gates c"
  by (induction ops arbitrary: c) (auto simp: remove_user_def)

lemma non_constants_replace_by_constant:
  assumes "get_gate (circuit s) l = Inr gate" "\<not> is_constant (gate_type gate)"
  shows "non_constants (replace_by_constant (s\<lparr>cnf := f\<rparr>) gate l v) < non_constants s"
proof -
  from assms(1) have "map_of (gates (circuit s)) l = Some gate"
    by (auto simp: get_gate_def split: option.splits)
  from update_const_count [OF this assms(2), of "mk_gate l (if v then ALWAYS_TRUE else ALWAYS_FALSE) []"]
  show ?thesis
    by (simp add: non_constants_def replace_by_constant_def Let_def mk_gate_def is_constant_def)
qed

lemma non_constants_replace_input:
  "is_constant t \<Longrightarrow>
   length (filter (\<lambda>p. \<not> is_constant (gate_type (snd p))) (gates (replace_input t l c)))
   \<le> length (filter (\<lambda>p. \<not> is_constant (gate_type (snd p))) (gates c))"
  using update_const_count_le [of "mk_gate l t []" l "gates c"]
  by (simp add: replace_input_def mk_gate_def)

lemma non_constants_fold_replace_input:
  "is_constant t \<Longrightarrow>
   length (filter (\<lambda>p. \<not> is_constant (gate_type (snd p))) (gates (fold (replace_input t) ls c)))
   \<le> length (filter (\<lambda>p. \<not> is_constant (gate_type (snd p))) (gates c))"
proof (induction ls arbitrary: c)
  case Nil then show ?case by simp
next
  case (Cons a ls)
  from Cons.IH [OF Cons.prems, of "replace_input t a c"] non_constants_replace_input [OF Cons.prems, of a c]
  show ?case by simp
qed

lemma non_constants_replace_inputs:
  "replace_inputs c ts fs = Inr c' \<Longrightarrow>
   length (filter (\<lambda>p. \<not> is_constant (gate_type (snd p))) (gates c'))
   \<le> length (filter (\<lambda>p. \<not> is_constant (gate_type (snd p))) (gates c))"
  using non_constants_fold_replace_input [of ALWAYS_FALSE fs "fold (replace_input ALWAYS_TRUE) ts c"]
    non_constants_fold_replace_input [of ALWAYS_TRUE ts c]
  by (auto simp: replace_inputs_def is_constant_def split: if_splits)

lemma non_constants_cnf [simp]: "non_constants (s\<lparr>cnf := f\<rparr>) = non_constants s"
  by (simp add: non_constants_def)

lemma non_constants_input:
  "replace_inputs (circuit s) ts fs = Inr c \<Longrightarrow>
   non_constants (s\<lparr>cnf := f, circuit := c, gates_config := gc\<rparr>) \<le> non_constants s"
  using non_constants_replace_inputs [of "circuit s" ts fs c] by (simp add: non_constants_def)

lemma assign_non_constants_le:
  "assign_and_propagate_assign_operands_dom (Inl (s, l, v)) \<Longrightarrow>
     assign_and_propagate s l v = Inr (st, s') \<Longrightarrow> non_constants s' \<le> non_constants s"
  "assign_and_propagate_assign_operands_dom (Inr (s, ops)) \<Longrightarrow>
     assign_operands s ops = Inr (st, s') \<Longrightarrow> non_constants s' \<le> non_constants s"
proof (induction s l v and s ops arbitrary: st s' and st s' rule: assign_and_propagate_assign_operands.pinduct)
  case (1 s l v)
  from "1.prems" "1.hyps" obtain gate where g: "get_gate (circuit s) l = Inr gate"
    by (auto simp: assign_and_propagate.psimps assign_operands.psimps split: sum.splits)
  show ?case
  proof (cases "is_constant (gate_type gate)")
    case True
    with "1.prems" "1.hyps" g show ?thesis
      by (auto simp: assign_and_propagate.psimps assign_operands.psimps split: if_splits)
  next
    case nc: False
    from "1.prems" "1.hyps" g nc obtain lit where lit: "idx_of (gates_config s) l = Inr lit"
      by (auto simp: assign_and_propagate.psimps assign_operands.psimps split: sum.splits)
    from "1.prems" "1.hyps" g nc lit obtain unit_lit where
      ul: "(if v then Inr lit else negated lit) = Inr unit_lit"
      by (auto simp: assign_and_propagate.psimps assign_operands.psimps split: sum.splits)
    let ?s1 = "s\<lparr>cnf := add_clause (cnf s) [unit_lit]\<rparr>"
    let ?s2 = "replace_by_constant ?s1 gate l v"
    have lt: "non_constants ?s2 < non_constants s"
      using non_constants_replace_by_constant [OF g nc] by simp
    note ih1 = "1.IH"(1) [OF g nc lit ul refl _ refl]
    note ih2 = "1.IH"(2) [OF g nc lit ul refl _ refl]
    from "1.prems" have eq: "assign_and_propagate s l v = Inr (st, s')" .
    show ?thesis
    proof (cases "gate_type gate = INPUT")
      case True
      with eq "1.hyps" g nc lit ul show ?thesis
        by (auto simp: assign_and_propagate.psimps Let_def non_constants_input split: sum.splits)
    next
      case ni: False
      show ?thesis
      proof (cases "gate_type gate = NOT")
        case True
        with eq "1.hyps" g nc lit ul ni obtain op0 rest where
          ops: "operands gate = op0 # rest" and
          r: "assign_and_propagate ?s2 op0 (\<not> v) = Inr (st, s')"
          by (auto simp: assign_and_propagate.psimps Let_def split: list.splits)
        from ih1 [OF ni True ops r] lt show ?thesis by simp
      next
        case nn: False
        show ?thesis
        proof (cases "gate_type gate = AND \<and> v")
          case True
          with eq "1.hyps" g nc lit ul ni nn have
            r: "assign_operands ?s2 (operands gate) = Inr (st, s')"
            by (auto simp: assign_and_propagate.psimps Let_def)
          from ih2 [OF ni nn True r] lt show ?thesis by simp
        next
          case False
          with eq "1.hyps" g nc lit ul ni nn lt show ?thesis
            by (auto simp: assign_and_propagate.psimps Let_def split: sum.splits if_splits)
        qed
      qed
    qed
  qed
next
  case (2 s)
  then show ?case by (simp add: assign_and_propagate.psimps assign_operands.psimps)
next
  case (3 s operand_label rest)
  from "3.prems" "3.hyps" have
    "(\<exists>s1. assign_and_propagate s operand_label True = Inr (OK, s1)
         \<and> assign_operands s1 rest = Inr (st, s'))
       \<or> assign_and_propagate s operand_label True = Inr (st, s')"
    by (auto simp: assign_operands.psimps split: sum.splits if_splits)
  then show ?case
  proof
    assume "\<exists>s1. assign_and_propagate s operand_label True = Inr (OK, s1)
         \<and> assign_operands s1 rest = Inr (st, s')"
    then obtain s1 where a: "assign_and_propagate s operand_label True = Inr (OK, s1)
         \<and> assign_operands s1 rest = Inr (st, s')" by blast
    from "3.IH"(1) [of OK s1] a have "non_constants s1 \<le> non_constants s" by simp
    moreover from "3.IH"(2) [of "(OK, s1)" OK s1 st s'] a
    have "non_constants s' \<le> non_constants s1" by simp
    ultimately show ?thesis by simp
  next
    assume "assign_and_propagate s operand_label True = Inr (st, s')"
    then show ?thesis by (rule "3.IH"(1))
  qed
qed

termination assign_and_propagate
proof (relation "inv_image (less_than <*lex*> less_than <*lex*> less_than)
    (\<lambda>x. case x of Inl (s, l, v) \<Rightarrow> (non_constants s, 0::nat, 0::nat)
                  | Inr (s, ops) \<Rightarrow> (non_constants s, 1, length ops))", goal_cases)
  case 1
  show ?case by (intro wf_inv_image wf_lex_prod wf_less_than)
next
  case (2 s l v gate lit s1 s2 op0 rest)
  then show ?case
    using non_constants_replace_by_constant [of s l gate] by auto
next
  case (3 s l v gate lit s1 s2)
  then show ?case
    using non_constants_replace_by_constant [of s l gate] by auto
next
  case (4 s operand_label rest)
  then show ?case by simp
next
  case (5 s operand_label rest x y s')
  then show ?case
    using assign_non_constants_le(1) [of s operand_label True] by (auto simp: le_less)
qed

text \<open>\<open>assign\<close>\<close>

definition assign :: "CircuitSatInstance \<Rightarrow> Label \<Rightarrow> bool \<Rightarrow> error + AssignmentStatus \<times> CircuitSatInstance" where
  "assign s l v =
     (case assign_and_propagate s l v of
        Inl e \<Rightarrow> Inl e
      | Inr (status, s1) \<Rightarrow>
          if status \<noteq> OK then Inr (status, s1)
          else (case simplify s1 of Inl e \<Rightarrow> Inl e | Inr s2 \<Rightarrow> Inr (OK, s2)))"

text \<open>\<open>from_circuit\<close>; the result \<open>None\<close> of the source is \<open>Inr None\<close>.\<close>

definition from_circuit :: "Circuit \<Rightarrow> (error + CircuitSatInstance option) option" where
  "from_circuit c =
     (if output_size c \<noteq> 1 then Some (Inl AssertionError)
      else case new_instance c of
        None \<Rightarrow> None
      | Some (Inl e) \<Rightarrow> Some (Inl e)
      | Some (Inr inst) \<Rightarrow>
          (case assign inst (hd (outputs (circuit inst))) True of
             Inl e \<Rightarrow> Some (Inl e)
           | Inr (status, inst') \<Rightarrow>
               if status \<noteq> OK then Some (Inr None) else Some (Inr (Some inst'))))"

section \<open>The cube driver (solver.py)\<close>

record GateWeightResult =
  weight :: "int option"
  forced_value :: "bool option"

record CubeGateSelection =
  sel_label :: Label
  sel_forced_value :: "bool option"

text \<open>
  The solver's parameters: \<open>max_depth\<close> and \<open>candidates_limit\<close> are Python integers.
  \<open>scores[: k]\<close> is a Python slice: a negative \<open>k\<close> counts from the end.
\<close>

definition py_slice_to :: "'a list \<Rightarrow> int \<Rightarrow> 'a list" where
  "py_slice_to xs k =
     (if 0 \<le> k then take (nat k) xs else take (nat (int (length xs) + k)) xs)"

text \<open>\<open>_rank_candidates\<close>: the out-degree of a gate, then the loop and the sort.\<close>

fun outdegree_of :: "Circuit \<Rightarrow> Label list \<Rightarrow> error + nat" where
  "outdegree_of c [] = Inr 0"
| "outdegree_of c (user_label # rest) =
     (case get_gate c user_label of
        Inl e \<Rightarrow> Inl e
      | Inr user \<Rightarrow>
          (case outdegree_of c rest of
             Inl e \<Rightarrow> Inl e
           | Inr n \<Rightarrow>
               Inr ((if gate_type user = NOT then length (get_gate_users c user_label) else 1) + n)))"

fun rank_scores :: "Circuit \<Rightarrow> Label list \<Rightarrow> error + (nat \<times> Label) list" where
  "rank_scores c [] = Inr []"
| "rank_scores c (l # ls) =
     (case get_gate c l of
        Inl e \<Rightarrow> Inl e
      | Inr g \<Rightarrow>
          if gate_type g = ALWAYS_TRUE \<or> gate_type g = ALWAYS_FALSE \<or> gate_type g = NOT then
            rank_scores c ls
          else if \<not> (gate_type g = AND \<or> gate_type g = INPUT) then Inl AssertionError
          else
            (case outdegree_of c (get_gate_users c l) of
               Inl e \<Rightarrow> Inl e
             | Inr outdegree \<Rightarrow>
                 (case rank_scores c ls of
                    Inl e \<Rightarrow> Inl e
                  | Inr scores \<Rightarrow>
                      Inr (((length (operands g) + 1) * (outdegree + 1), l) # scores))))"

definition rank_candidates :: "int \<Rightarrow> CircuitSatInstance \<Rightarrow> error + Label list" where
  "rank_candidates candidates_limit instance =
     (case rank_scores (circuit instance) (map fst (gates (circuit instance))) of
        Inl e \<Rightarrow> Inl e
      | Inr scores \<Rightarrow>
          Inr (map snd (py_slice_to (sort_key (\<lambda>x. - int (fst x)) scores) candidates_limit)))"

text \<open>
  \<open>_weight_gate\<close>. \<open>copy.deepcopy(instance)\<close> is the instance itself here: values are
  not shared. The loop over \<open>(False, True)\<close> is unrolled by \<open>weight_loop\<close>.
\<close>

fun weight_loop :: "CircuitSatInstance \<Rightarrow> Label \<Rightarrow> nat \<Rightarrow> int \<Rightarrow> bool list \<Rightarrow> error + GateWeightResult" where
  "weight_loop instance l start_size w [] = Inr \<lparr>weight = Some w, forced_value = None\<rparr>"
| "weight_loop instance l start_size w (val # vals) =
     (case assign instance l val of
        Inl e \<Rightarrow> Inl e
      | Inr (status, branch) \<Rightarrow>
          if status \<noteq> OK then Inr \<lparr>weight = None, forced_value = Some (\<not> val)\<rparr>
          else
            let delta = int start_size - int (circuit_size (circuit branch)) in
            if \<not> 0 < delta then Inl AssertionError
            else weight_loop instance l start_size (w * delta) vals)"

definition weight_gate :: "CircuitSatInstance \<Rightarrow> Label \<Rightarrow> error + GateWeightResult" where
  "weight_gate instance l =
     weight_loop instance l (circuit_size (circuit instance)) 1 [False, True]"

text \<open>\<open>_select_gate\<close>\<close>

fun select_loop ::
  "CircuitSatInstance \<Rightarrow> Label option \<Rightarrow> int \<Rightarrow> Label list \<Rightarrow> error + CubeGateSelection" where
  "select_loop instance best_label best_weight [] =
     (case best_label of
        None \<Rightarrow> Inl AssertionError
      | Some b \<Rightarrow> Inr \<lparr>sel_label = b, sel_forced_value = None\<rparr>)"
| "select_loop instance best_label best_weight (l # ls) =
     (case weight_gate instance l of
        Inl e \<Rightarrow> Inl e
      | Inr wr \<Rightarrow>
          if forced_value wr \<noteq> None then Inr \<lparr>sel_label = l, sel_forced_value = forced_value wr\<rparr>
          else (case weight wr of
                  None \<Rightarrow> Inl TypeError
                | Some w \<Rightarrow>
                    if w > best_weight then select_loop instance (Some l) w ls
                    else select_loop instance best_label best_weight ls))"

definition select_gate :: "int \<Rightarrow> CircuitSatInstance \<Rightarrow> error + CubeGateSelection option" where
  "select_gate candidates_limit instance =
     (case rank_candidates candidates_limit instance of
        Inl e \<Rightarrow> Inl e
      | Inr candidates \<Rightarrow>
          if candidates = [] then Inr None
          else (case select_loop instance None 0 candidates of
                  Inl e \<Rightarrow> Inl e
                | Inr sel \<Rightarrow> Inr (Some sel)))"

definition should_stop :: "int \<Rightarrow> CircuitSatInstance \<Rightarrow> int \<Rightarrow> bool" where
  "should_stop max_depth instance depth =
     (if input_size (circuit instance) = 0 then True
      else if depth \<ge> max_depth then True
      else False)"

text \<open>
  \<open>_cube\<close>. The status that \<open>assign\<close> returns is dropped in both branches, as in the
  source; an exception of \<open>assign\<close> ends the run.
\<close>

function cube_rec ::
  "int \<Rightarrow> int \<Rightarrow> CircuitSatInstance \<Rightarrow> int \<Rightarrow> error + CircuitSatInstance list" where
  "cube_rec max_depth candidates_limit instance depth =
     (if should_stop max_depth instance depth then Inr [instance]
      else case select_gate candidates_limit instance of
        Inl e \<Rightarrow> Inl e
      | Inr None \<Rightarrow> Inr [instance]
      | Inr (Some selection) \<Rightarrow>
          (case sel_forced_value selection of
             Some fv \<Rightarrow>
               (case assign instance (sel_label selection) fv of
                  Inl e \<Rightarrow> Inl e
                | Inr (status, instance') \<Rightarrow>
                    cube_rec max_depth candidates_limit instance' (depth + 1))
           | None \<Rightarrow>
               (case assign instance (sel_label selection) False of
                  Inl e \<Rightarrow> Inl e
                | Inr (status0, branch0) \<Rightarrow>
                    (case cube_rec max_depth candidates_limit branch0 (depth + 1) of
                       Inl e \<Rightarrow> Inl e
                     | Inr result0 \<Rightarrow>
                         (case assign instance (sel_label selection) True of
                            Inl e \<Rightarrow> Inl e
                          | Inr (status1, branch1) \<Rightarrow>
                              (case cube_rec max_depth candidates_limit branch1 (depth + 1) of
                                 Inl e \<Rightarrow> Inl e
                               | Inr result1 \<Rightarrow> Inr (result0 @ result1)))))))"
  by pat_completeness auto
termination
  by (relation "measure (\<lambda>(max_depth, candidates_limit, instance, depth). nat (max_depth - depth))")
     (auto simp: should_stop_def split: if_splits)

text \<open>
  \<open>conquer\<close>. \<open>is_satisfiable\<close> (sat.py) hands the clause list to the PySAT backend,
  which is outside the repository: the backend is the parameter \<open>backend\<close>.
\<close>

record PySatResult =
  answer :: bool
  model :: "int list option"

text \<open>\<open>xs[i] = v\<close> on a Python list: a negative index counts from the end.\<close>

definition py_list_set :: "'a list \<Rightarrow> int \<Rightarrow> 'a \<Rightarrow> error + 'a list" where
  "py_list_set xs i v =
     (let n = int (length xs) in
      if 0 \<le> i \<and> i < n then Inr (xs[nat i := v])
      else if - n \<le> i \<and> i < 0 then Inr (xs[nat (n + i) := v])
      else Inl IndexError)"

text \<open>The loop over \<open>instance.gates_config.values()\<close> that fills the model array.\<close>

fun fill_model :: "PySatResult \<Rightarrow> int list \<Rightarrow> GateConfig list \<Rightarrow> error + int list" where
  "fill_model result m [] = Inr m"
| "fill_model result m (gc # gcs) =
     (if \<not> is_input gc then fill_model result m gcs
      else if model result = None then Inl AssertionError
      else case idx gc of
        None \<Rightarrow> Inl TypeError
      | Some i \<Rightarrow>
          (case py_list_set m (i - 1) (if gc_value gc = Some True then i else - i) of
             Inl e \<Rightarrow> Inl e
           | Inr m' \<Rightarrow> fill_model result m' gcs))"

fun conquer :: "(Cnf \<Rightarrow> PySatResult) \<Rightarrow> CircuitSatInstance list \<Rightarrow> error + PySatResult" where
  "conquer backend [] = Inr \<lparr>answer = False, model = None\<rparr>"
| "conquer backend (instance # cubes) =
     (let result = backend (cnf instance) in
      if answer result then
        (case fill_model result (replicate (length (gates_config instance)) 0)
                (map snd (gates_config instance)) of
           Inl e \<Rightarrow> Inl e
         | Inr m \<Rightarrow> Inr \<lparr>answer = True, model = Some m\<rparr>)
      else conquer backend cubes)"

section \<open>The external conquer loop (scripts/solve_external.py)\<close>

text \<open>
  What \<open>subprocess.run\<close> did for one cube: the solver exited with a return code, or
  the timeout expired. \<open>run_external_solver\<close> maps it to \<open>True\<close>, \<open>False\<close> or \<open>None\<close>.
\<close>

datatype proc_outcome = Exited int | TimeoutExpired

definition run_external_solver :: "proc_outcome \<Rightarrow> bool option" where
  "run_external_solver out =
     (case out of
        Exited returncode \<Rightarrow>
          if returncode = 10 then Some True
          else if returncode = 20 then Some False
          else None
      | TimeoutExpired \<Rightarrow> None)"

definition status_str :: "bool option \<Rightarrow> string" where
  "status_str sat = (case sat of Some True \<Rightarrow> ''SAT'' | Some False \<Rightarrow> ''UNSAT'' | None \<Rightarrow> ''UNKNOWN'')"

text \<open>
  \<open>write_dimacs\<close>: only its failures matter here, \<open>abs\<close> of a \<open>None\<close> literal and \<open>max\<close>
  of an empty sequence when the clause list holds no literal. \<open>max\<close> consumes every
  literal, so a \<open>None\<close> among them raises \<open>TypeError\<close>.
\<close>

definition write_dimacs :: "PyClause list \<Rightarrow> error + nat \<times> nat" where
  "write_dimacs clauses =
     (if None \<in> set (concat clauses) then Inl TypeError
      else if concat clauses = [] then Inl ValueError
      else Inr (nat (Max (set (map (\<lambda>lit. abs (the lit)) (concat clauses)))), length clauses))"

text \<open>
  The loop of \<open>main\<close> over the cubes. \<open>run\<close> gives, for a cube, what running the
  external solver on its DIMACS file did. The result is the value of \<open>answer\<close> after
  the loop with the per-cube statuses printed on the way.
\<close>

fun external_loop ::
  "(CircuitSatInstance \<Rightarrow> proc_outcome) \<Rightarrow> CircuitSatInstance list \<Rightarrow> error + bool \<times> string list" where
  "external_loop run [] = Inr (False, [])"
| "external_loop run (instance # cubes) =
     (case write_dimacs (cnf_raw (cnf instance)) of
        Inl e \<Rightarrow> Inl e
      | Inr _ \<Rightarrow>
          (let sat = run_external_solver (run instance) in
           if sat = Some True then Inr (True, [status_str sat])
           else case external_loop run cubes of
                  Inl e \<Rightarrow> Inl e
                | Inr (a, printed) \<Rightarrow> Inr (a, status_str sat # printed)))"

definition external_final :: "(CircuitSatInstance \<Rightarrow> proc_outcome) \<Rightarrow> CircuitSatInstance list \<Rightarrow> error + string" where
  "external_final run cubes =
     (case external_loop run cubes of
        Inl e \<Rightarrow> Inl e
      | Inr (a, printed) \<Rightarrow> Inr (if a then ''SAT'' else ''UNSAT''))"

section \<open>The object store\<close>

text \<open>
  A \<open>CircuitSatInstance\<close> is a mutable Python object that refers to other mutable
  objects: the \<open>Circuit\<close>, the \<open>Cnf\<close> with its clause list and its variable map, and the
  \<open>gates_config\<close> dict with one \<open>GateConfig\<close> object per label. Two instances may share
  such objects, so whether a call on one instance changes what another one holds
  depends on the references. The store is the list of all objects; an address is an
  index into it. Gate records, strings, integers and the clauses themselves are never
  updated after their creation and are kept as values. The four tables of a \<open>Circuit\<close>
  belong to one object (cirbo's class is not among the sources; section 4.1 of the
  specification: side effects are confined to in-place updates of the four internal
  tables).
\<close>

type_synonym addr = nat

datatype cell =
    InstanceObj addr addr addr
  | CircuitObj Circuit
  | CnfObj addr addr
  | ClauseListObj "PyClause list"
  | VarMapObj VarMap
  | ConfigDictObj "(Label \<times> addr) list"
  | GateConfigObj GateConfig

type_synonym heap = "cell list"

text \<open>
  What a call does: it returns a result, or raises, in both cases leaving a store
  behind; \<open>Dangling\<close> stands for a reference that does not lead to an object of the
  expected class, which a Python reference never does.
\<close>

datatype 'a outcome = Returned 'a heap | Raised error heap | Dangling

definition cell_at :: "heap \<Rightarrow> addr \<Rightarrow> cell option" where
  "cell_at h x = (if x < length h then Some (h ! x) else None)"

definition alloc :: "heap \<Rightarrow> cell \<Rightarrow> addr \<times> heap" where
  "alloc h c = (length h, h @ [c])"

text \<open>
  The attributes \<open>circuit\<close>, \<open>cnf\<close> and \<open>gates_config\<close> of the instance at \<open>a\<close>;
  \<open>self.circuit\<close> with its address; the list \<open>self.cnf._cnf\<close> with its address;
  \<open>self.gates_config[label]\<close> with its address (\<open>KeyError\<close> for a missing label).
\<close>

definition attrs_of :: "heap \<Rightarrow> addr \<Rightarrow> (addr \<times> addr \<times> addr) option" where
  "attrs_of h a = (case cell_at h a of Some (InstanceObj rc rf rd) \<Rightarrow> Some (rc, rf, rd) | _ \<Rightarrow> None)"

definition circuit_of :: "heap \<Rightarrow> addr \<Rightarrow> (addr \<times> Circuit) option" where
  "circuit_of h a =
     (case attrs_of h a of
        None \<Rightarrow> None
      | Some (rc, rf, rd) \<Rightarrow>
          (case cell_at h rc of Some (CircuitObj c) \<Rightarrow> Some (rc, c) | _ \<Rightarrow> None))"

definition clause_list_of :: "heap \<Rightarrow> addr \<Rightarrow> (addr \<times> PyClause list) option" where
  "clause_list_of h a =
     (case attrs_of h a of
        None \<Rightarrow> None
      | Some (rc, rf, rd) \<Rightarrow>
          (case cell_at h rf of
             Some (CnfObj rl rv) \<Rightarrow>
               (case cell_at h rl of Some (ClauseListObj cs) \<Rightarrow> Some (rl, cs) | _ \<Rightarrow> None)
           | _ \<Rightarrow> None))"

definition config_of :: "heap \<Rightarrow> addr \<Rightarrow> Label \<Rightarrow> (error + addr \<times> GateConfig) option" where
  "config_of h a l =
     (case attrs_of h a of
        None \<Rightarrow> None
      | Some (rc, rf, rd) \<Rightarrow>
          (case cell_at h rd of
             Some (ConfigDictObj d) \<Rightarrow>
               (case map_of d l of
                  None \<Rightarrow> Some (Inl KeyError)
                | Some x \<Rightarrow>
                    (case cell_at h x of Some (GateConfigObj g) \<Rightarrow> Some (Inr (x, g)) | _ \<Rightarrow> None))
           | _ \<Rightarrow> None))"

text \<open>\<open>self.cnf.add_clause(clause)\<close>: the list object is appended to in place.\<close>

definition store_add_clause :: "heap \<Rightarrow> addr \<Rightarrow> PyClause \<Rightarrow> unit outcome" where
  "store_add_clause h a clause =
     (case clause_list_of h a of
        None \<Rightarrow> Dangling
      | Some (rl, cs) \<Rightarrow> Returned () (h[rl := ClauseListObj (cs @ [clause])]))"

text \<open>\<open>self.gates_config[label].idx\<close>\<close>

definition store_idx :: "heap \<Rightarrow> addr \<Rightarrow> Label \<Rightarrow> (Lit option) outcome" where
  "store_idx h a l =
     (case config_of h a l of
        None \<Rightarrow> Dangling
      | Some (Inl e) \<Rightarrow> Raised e h
      | Some (Inr (x, g)) \<Rightarrow> Returned (idx g) h)"

text \<open>
  \<open>lit = self.gates_config[label].idx\<close> and
  \<open>self.cnf.add_clause([lit if value else -lit])\<close>.
\<close>

definition unit_clause :: "heap \<Rightarrow> addr \<Rightarrow> Label \<Rightarrow> bool \<Rightarrow> unit outcome" where
  "unit_clause h a l v =
     (case store_idx h a l of
        Dangling \<Rightarrow> Dangling
      | Raised e h' \<Rightarrow> Raised e h'
      | Returned lit h' \<Rightarrow>
          (case (if v then Inr lit else negated lit) of
             Inl e \<Rightarrow> Raised e h'
           | Inr unit_lit \<Rightarrow> store_add_clause h' a [unit_lit]))"

text \<open>
  The INPUT branch: \<open>self.circuit = self.circuit.replace_inputs(...)\<close>, an in-place
  update of the circuit object, which stays the circuit of the instance, and
  \<open>self.gates_config[label].value = value\<close>, an update of the \<open>GateConfig\<close> object.
\<close>

definition assign_input :: "heap \<Rightarrow> addr \<Rightarrow> Label \<Rightarrow> bool \<Rightarrow> AssignmentStatus outcome" where
  "assign_input h a l v =
     (case circuit_of h a of
        None \<Rightarrow> Dangling
      | Some (rc, c) \<Rightarrow>
          (case replace_inputs c (if v then [l] else []) (if v then [] else [l]) of
             Inl e \<Rightarrow> Raised e h
           | Inr c' \<Rightarrow>
               (let h1 = h[rc := CircuitObj c'] in
                case config_of h1 a l of
                  None \<Rightarrow> Dangling
                | Some (Inl e) \<Rightarrow> Raised e h1
                | Some (Inr (x, g)) \<Rightarrow> Returned OK (h1[x := GateConfigObj (g\<lparr>gc_value := Some v\<rparr>)]))))"

text \<open>
  The loop over \<open>self.circuit._remove_user\<close> and \<open>self.circuit._gates[label] = new_gate\<close>:
  in-place updates of the circuit object.
\<close>

definition constant_in_place :: "Circuit \<Rightarrow> Gate \<Rightarrow> Label \<Rightarrow> bool \<Rightarrow> Circuit" where
  "constant_in_place c gate l v =
     (let c1 = fold (\<lambda>operand c. remove_user c operand l) (operands gate) c;
          new_gate = mk_gate l (if v then ALWAYS_TRUE else ALWAYS_FALSE) []
      in c1\<lparr>gates := AList.update l new_gate (gates c1)\<rparr>)"

definition store_replace_by_constant :: "heap \<Rightarrow> addr \<Rightarrow> Gate \<Rightarrow> Label \<Rightarrow> bool \<Rightarrow> unit outcome" where
  "store_replace_by_constant h a gate l v =
     (case circuit_of h a of
        None \<Rightarrow> Dangling
      | Some (rc, c) \<Rightarrow> Returned () (h[rc := CircuitObj (constant_in_place c gate l v)]))"

text \<open>The branch of an AND gate assigned false.\<close>

definition binary_clause :: "heap \<Rightarrow> addr \<Rightarrow> Gate \<Rightarrow> AssignmentStatus outcome" where
  "binary_clause h a gate =
     (if length (operands gate) \<noteq> 2 then Raised AssertionError h
      else case store_idx h a (operands gate ! 0) of
        Dangling \<Rightarrow> Dangling
      | Raised e h' \<Rightarrow> Raised e h'
      | Returned lit0 h' \<Rightarrow>
          (case store_idx h a (operands gate ! 1) of
             Dangling \<Rightarrow> Dangling
           | Raised e h' \<Rightarrow> Raised e h'
           | Returned lit1 h' \<Rightarrow>
               (case negated lit0 of
                  Inl e \<Rightarrow> Raised e h
                | Inr n0 \<Rightarrow>
                    (case negated lit1 of
                       Inl e \<Rightarrow> Raised e h
                     | Inr n1 \<Rightarrow>
                         (case store_add_clause h a [n0, n1] of
                            Dangling \<Rightarrow> Dangling
                          | Raised e h' \<Rightarrow> Raised e h'
                          | Returned u h' \<Rightarrow> Returned OK h')))))"

text \<open>
  \<open>_assign_and_propagate\<close> on the instance at address \<open>a\<close>, statement by statement, and
  its loop over the operands of an AND gate assigned true.
\<close>

function store_assign_and_propagate :: "heap \<Rightarrow> addr \<Rightarrow> Label \<Rightarrow> bool \<Rightarrow> AssignmentStatus outcome"
  and store_assign_operands :: "heap \<Rightarrow> addr \<Rightarrow> Label list \<Rightarrow> AssignmentStatus outcome"
where
  "store_assign_and_propagate h a l v =
     (case circuit_of h a of
        None \<Rightarrow> Dangling
      | Some (rc, c) \<Rightarrow>
          (case get_gate c l of
             Inl e \<Rightarrow> Raised e h
           | Inr gate \<Rightarrow>
               if is_constant (gate_type gate) then
                 (if (gate_type gate = ALWAYS_TRUE) \<noteq> v then Returned CONFLICT h else Returned OK h)
               else
                 (case unit_clause h a l v of
                    Dangling \<Rightarrow> Dangling
                  | Raised e h' \<Rightarrow> Raised e h'
                  | Returned u h1 \<Rightarrow>
                      if gate_type gate = INPUT then assign_input h1 a l v
                      else
                        (case store_replace_by_constant h1 a gate l v of
                           Dangling \<Rightarrow> Dangling
                         | Raised e h' \<Rightarrow> Raised e h'
                         | Returned u2 h2 \<Rightarrow>
                             if gate_type gate = NOT then
                               (case operands gate of
                                  [] \<Rightarrow> Raised IndexError h2
                                | op0 # _ \<Rightarrow> store_assign_and_propagate h2 a op0 (\<not> v))
                             else if gate_type gate = AND \<and> v then
                               store_assign_operands h2 a (operands gate)
                             else if gate_type gate = AND \<and> \<not> v then binary_clause h2 a gate
                             else Raised RuntimeError h2))))"
| "store_assign_operands h a [] = Returned OK h"
| "store_assign_operands h a (operand_label # rest) =
     (case store_assign_and_propagate h a operand_label True of
        Dangling \<Rightarrow> Dangling
      | Raised e h' \<Rightarrow> Raised e h'
      | Returned status h' \<Rightarrow>
          if status \<noteq> OK then Returned status h' else store_assign_operands h' a rest)"
  by pat_completeness auto

text \<open>
  Termination, as for \<open>assign_and_propagate\<close>: the number of non-constant gates of the
  circuit of the instance decreases before every recursive call and never grows.
\<close>

definition store_non_constants :: "heap \<Rightarrow> addr \<Rightarrow> nat" where
  "store_non_constants h a =
     (case circuit_of h a of
        None \<Rightarrow> 0
      | Some (rc, c) \<Rightarrow> length (filter (\<lambda>p. \<not> is_constant (gate_type (snd p))) (gates c)))"

lemma cell_at_update:
  "cell_at (h[x := c]) y = (if x = y \<and> x < length h then Some c else cell_at h y)"
  by (auto simp: cell_at_def)

lemma circuit_of_clause_write:
  "cell_at h x = Some (ClauseListObj cs) \<Longrightarrow>
   circuit_of (h[x := ClauseListObj cs']) a = circuit_of h a"
  by (auto simp: circuit_of_def attrs_of_def cell_at_update split: option.splits cell.splits)

lemma circuit_of_config_write:
  "cell_at h x = Some (GateConfigObj g) \<Longrightarrow>
   circuit_of (h[x := GateConfigObj g']) a = circuit_of h a"
  by (auto simp: circuit_of_def attrs_of_def cell_at_update split: option.splits cell.splits)

lemma circuit_of_cells:
  "circuit_of h a = Some (rc, c) \<Longrightarrow>
   (\<exists>rf rd. cell_at h a = Some (InstanceObj rc rf rd)) \<and> cell_at h rc = Some (CircuitObj c)"
  by (auto simp: circuit_of_def attrs_of_def split: option.splits cell.splits)

lemma circuit_of_circuit_write:
  assumes "circuit_of h a = Some (rc, c)"
  shows "circuit_of (h[rc := CircuitObj c']) a = Some (rc, c')"
proof -
  from circuit_of_cells [OF assms] obtain rf rd where
    i: "cell_at h a = Some (InstanceObj rc rf rd)" and k: "cell_at h rc = Some (CircuitObj c)"
    by blast
  from i k have ne: "rc \<noteq> a" by auto
  from k have b: "rc < length h" by (simp add: cell_at_def split: if_splits)
  from ne i have i': "cell_at (h[rc := CircuitObj c']) a = Some (InstanceObj rc rf rd)"
    by (simp add: cell_at_update)
  from b have k': "cell_at (h[rc := CircuitObj c']) rc = Some (CircuitObj c')"
    by (simp add: cell_at_update)
  from i' k' show ?thesis by (simp add: circuit_of_def attrs_of_def)
qed

lemma clause_list_of_cell:
  "clause_list_of h a = Some (rl, cs) \<Longrightarrow> cell_at h rl = Some (ClauseListObj cs)"
  by (auto simp: clause_list_of_def split: option.splits cell.splits)

lemma config_of_cell:
  "config_of h a l = Some (Inr (x, g)) \<Longrightarrow> cell_at h x = Some (GateConfigObj g)"
  by (auto simp: config_of_def split: option.splits cell.splits)

lemma store_add_clause_circuit:
  "store_add_clause h a cl = Returned u h' \<Longrightarrow> circuit_of h' a = circuit_of h a"
  by (auto simp: store_add_clause_def circuit_of_clause_write dest!: clause_list_of_cell
           split: option.splits)

lemma store_idx_heap: "store_idx h a l = Returned lit h' \<Longrightarrow> h' = h"
  by (auto simp: store_idx_def split: option.splits sum.splits)

lemma unit_clause_circuit:
  "unit_clause h a l v = Returned u h' \<Longrightarrow> circuit_of h' a = circuit_of h a"
  by (auto simp: unit_clause_def split: outcome.splits sum.splits if_splits
           dest!: store_idx_heap store_add_clause_circuit)

lemma binary_clause_circuit:
  "binary_clause h a gate = Returned st h' \<Longrightarrow> circuit_of h' a = circuit_of h a"
  by (auto simp: binary_clause_def split: outcome.splits sum.splits if_splits
           dest!: store_add_clause_circuit)

lemma constant_in_place_count:
  assumes "get_gate c l = Inr gate" "\<not> is_constant (gate_type gate)"
  shows "length (filter (\<lambda>p. \<not> is_constant (gate_type (snd p))) (gates (constant_in_place c gate l v)))
       < length (filter (\<lambda>p. \<not> is_constant (gate_type (snd p))) (gates c))"
proof -
  from assms(1) have "map_of (gates c) l = Some gate"
    by (auto simp: get_gate_def split: option.splits)
  from update_const_count [OF this assms(2), of "mk_gate l (if v then ALWAYS_TRUE else ALWAYS_FALSE) []"]
  show ?thesis
    by (simp add: constant_in_place_def Let_def mk_gate_def is_constant_def)
qed

lemma store_replace_by_constant_count:
  assumes "circuit_of h a = Some (rc, c)" "get_gate c l = Inr gate" "\<not> is_constant (gate_type gate)"
    and "unit_clause h a l v = Returned u h1"
    and "store_replace_by_constant h1 a gate l v = Returned u2 h2"
  shows "store_non_constants h2 a < store_non_constants h a"
proof -
  from unit_clause_circuit [OF assms(4)] assms(1) have c1: "circuit_of h1 a = Some (rc, c)" by simp
  with assms(5) have "h2 = h1[rc := CircuitObj (constant_in_place c gate l v)]"
    by (simp add: store_replace_by_constant_def)
  with circuit_of_circuit_write [OF c1] have
    "circuit_of h2 a = Some (rc, constant_in_place c gate l v)" by simp
  with assms(1) constant_in_place_count [OF assms(2,3)] show ?thesis
    by (simp add: store_non_constants_def)
qed

lemma assign_input_count:
  assumes "assign_input h a l v = Returned st h'"
  shows "store_non_constants h' a \<le> store_non_constants h a"
proof -
  from assms obtain rc c where c: "circuit_of h a = Some (rc, c)"
    by (auto simp: assign_input_def split: option.splits)
  with assms obtain c' where c': "replace_inputs c (if v then [l] else []) (if v then [] else [l]) = Inr c'"
    by (auto simp: assign_input_def split: sum.splits)
  let ?h1 = "h[rc := CircuitObj c']"
  from assms c c' obtain x g where
    x: "config_of ?h1 a l = Some (Inr (x, g))" "h' = ?h1[x := GateConfigObj (g\<lparr>gc_value := Some v\<rparr>)]"
    by (auto simp: assign_input_def Let_def split: option.splits sum.splits)
  have "circuit_of h' a = Some (rc, c')"
    using circuit_of_config_write [OF config_of_cell [OF x(1)]] circuit_of_circuit_write [OF c]
    by (simp add: x(2))
  with c non_constants_replace_inputs [OF c'] show ?thesis
    by (simp add: store_non_constants_def)
qed

lemma store_non_constants_le:
  "store_assign_and_propagate_store_assign_operands_dom (Inl (h, a, l, v)) \<Longrightarrow>
     store_assign_and_propagate h a l v = Returned st h' \<Longrightarrow>
     store_non_constants h' a \<le> store_non_constants h a"
  "store_assign_and_propagate_store_assign_operands_dom (Inr (h, a, ops)) \<Longrightarrow>
     store_assign_operands h a ops = Returned st h' \<Longrightarrow>
     store_non_constants h' a \<le> store_non_constants h a"
proof (induction h a l v and h a ops arbitrary: st h' and st h'
       rule: store_assign_and_propagate_store_assign_operands.pinduct)
  case (1 h a l v)
  note eq = "1.prems" [unfolded store_assign_and_propagate.psimps [OF "1.hyps"]]
  from eq obtain rc c where c: "circuit_of h a = Some (rc, c)"
    by (auto split: option.splits)
  from eq c obtain gate where g: "get_gate c l = Inr gate"
    by (auto split: sum.splits)
  show ?case
  proof (cases "is_constant (gate_type gate)")
    case True
    with eq c g show ?thesis by (auto split: if_splits)
  next
    case nc: False
    from eq c g nc obtain u h1 where u: "unit_clause h a l v = Returned u h1"
      by (auto split: outcome.splits)
    have m1: "store_non_constants h1 a = store_non_constants h a"
      using unit_clause_circuit [OF u] by (simp add: store_non_constants_def)
    show ?thesis
    proof (cases "gate_type gate = INPUT")
      case True
      with eq c g nc u have "assign_input h1 a l v = Returned st h'" by simp
      from assign_input_count [OF this] m1 show ?thesis by simp
    next
      case ni: False
      from eq c g nc u ni obtain u2 h2 where
        r: "store_replace_by_constant h1 a gate l v = Returned u2 h2"
        by (auto split: outcome.splits)
      have lt: "store_non_constants h2 a < store_non_constants h a"
        by (rule store_replace_by_constant_count [OF c g nc u r])
      note ih1 = "1.IH"(1) [OF c refl g nc u ni r]
      note ih2 = "1.IH"(2) [OF c refl g nc u ni r]
      show ?thesis
      proof (cases "gate_type gate = NOT")
        case True
        with eq c g nc u ni r obtain op0 rest where
          ops: "operands gate = op0 # rest" and
          rec: "store_assign_and_propagate h2 a op0 (\<not> v) = Returned st h'"
          by (auto split: list.splits)
        from ih1 [OF True ops rec] lt show ?thesis by simp
      next
        case nn: False
        show ?thesis
        proof (cases "gate_type gate = AND \<and> v")
          case True
          with eq c g nc u ni r nn have
            rec: "store_assign_operands h2 a (operands gate) = Returned st h'" by simp
          from ih2 [OF nn True rec] lt show ?thesis by simp
        next
          case False
          with eq c g nc u ni r nn have "binary_clause h2 a gate = Returned st h'"
            by (auto split: if_splits)
          from binary_clause_circuit [OF this] lt show ?thesis
            by (simp add: store_non_constants_def)
        qed
      qed
    qed
  qed
next
  case (2 h a)
  then show ?case by (simp add: store_assign_operands.psimps)
next
  case (3 h a operand_label rest)
  note eq = "3.prems" [unfolded store_assign_operands.psimps(2) [OF "3.hyps"]]
  from eq have
    "(\<exists>h1. store_assign_and_propagate h a operand_label True = Returned OK h1
         \<and> store_assign_operands h1 a rest = Returned st h')
       \<or> store_assign_and_propagate h a operand_label True = Returned st h'"
    by (auto split: outcome.splits if_splits)
  then show ?case
  proof
    assume "\<exists>h1. store_assign_and_propagate h a operand_label True = Returned OK h1
         \<and> store_assign_operands h1 a rest = Returned st h'"
    then obtain h1 where p: "store_assign_and_propagate h a operand_label True = Returned OK h1"
      and q: "store_assign_operands h1 a rest = Returned st h'" by blast
    from "3.IH"(1) [OF p] have "store_non_constants h1 a \<le> store_non_constants h a" .
    moreover from "3.IH"(2) [OF p _ q] have "store_non_constants h' a \<le> store_non_constants h1 a"
      by simp
    ultimately show ?thesis by simp
  next
    assume "store_assign_and_propagate h a operand_label True = Returned st h'"
    then show ?thesis by (rule "3.IH"(1))
  qed
qed

termination store_assign_and_propagate
proof (relation "inv_image (less_than <*lex*> less_than <*lex*> less_than)
    (\<lambda>x. case x of Inl (h, a, l, v) \<Rightarrow> (store_non_constants h a, 0::nat, 0::nat)
                  | Inr (h, a, ops) \<Rightarrow> (store_non_constants h a, 1, length ops))", goal_cases)
  case 1
  show ?case by (intro wf_inv_image wf_lex_prod wf_less_than)
next
  case (2 h a l v x2 rc c gate u h1 u2 h2 op0 rest)
  then show ?case
    using store_replace_by_constant_count [of h a rc c l gate v u h1 u2 h2] by auto
next
  case (3 h a l v x2 rc c gate u h1 u2 h2)
  then show ?case
    using store_replace_by_constant_count [of h a rc c l gate v u h1 u2 h2] by auto
next
  case (4 h a operand_label rest)
  then show ?case by simp
next
  case (5 h a operand_label rest status h')
  then show ?case
    using store_non_constants_le(1) [of h a operand_label True status h'] by (auto simp: le_less)
qed

text \<open>
  \<open>simplify\<close>: the simplifier builds a new \<open>Circuit\<close> object, and the attribute \<open>circuit\<close>
  of the instance is set to it.
\<close>

definition store_simplify :: "heap \<Rightarrow> addr \<Rightarrow> unit outcome" where
  "store_simplify h a =
     (case circuit_of h a of
        None \<Rightarrow> Dangling
      | Some (rc, c) \<Rightarrow>
          (case RemoveConstantGates c of
             Inl e \<Rightarrow> Raised e h
           | Inr c' \<Rightarrow>
               (case attrs_of h a of
                  None \<Rightarrow> Dangling
                | Some (rc0, rf, rd) \<Rightarrow>
                    (let (rn, h1) = alloc h (CircuitObj c')
                     in Returned () (h1[a := InstanceObj rn rf rd])))))"

text \<open>\<open>assign\<close> on the instance at address \<open>a\<close>.\<close>

definition store_assign :: "heap \<Rightarrow> addr \<Rightarrow> Label \<Rightarrow> bool \<Rightarrow> AssignmentStatus outcome" where
  "store_assign h a l v =
     (case store_assign_and_propagate h a l v of
        Dangling \<Rightarrow> Dangling
      | Raised e h' \<Rightarrow> Raised e h'
      | Returned status h1 \<Rightarrow>
          if status \<noteq> OK then Returned status h1
          else (case store_simplify h1 a of
                  Dangling \<Rightarrow> Dangling
                | Raised e h' \<Rightarrow> Raised e h'
                | Returned u h2 \<Rightarrow> Returned OK h2))"

text \<open>
  A sequence of \<open>assign\<close> calls on the instance at address \<open>a\<close>, whatever status each
  returns; a call that raises ends the sequence.
\<close>

fun store_assigns :: "heap \<Rightarrow> addr \<Rightarrow> (Label \<times> bool) list \<Rightarrow> (AssignmentStatus list) outcome" where
  "store_assigns h a [] = Returned [] h"
| "store_assigns h a ((l, v) # calls) =
     (case store_assign h a l v of
        Dangling \<Rightarrow> Dangling
      | Raised e h' \<Rightarrow> Raised e h'
      | Returned status h1 \<Rightarrow>
          (case store_assigns h1 a calls of
             Dangling \<Rightarrow> Dangling
           | Raised e h' \<Rightarrow> Raised e h'
           | Returned sts h2 \<Rightarrow> Returned (status # sts) h2))"

fun final_heap :: "'a outcome \<Rightarrow> heap option" where
  "final_heap (Returned x h) = Some h"
| "final_heap (Raised e h) = Some h"
| "final_heap Dangling = None"

text \<open>
  What the instance at address \<open>a\<close> holds, as a value: its circuit tables, its clause
  list and variable map, and its \<open>gates_config\<close> map.
\<close>

fun configs_at :: "heap \<Rightarrow> (Label \<times> addr) list \<Rightarrow> (Label \<times> GateConfig) list option" where
  "configs_at h [] = Some []"
| "configs_at h ((l, x) # d) =
     (case cell_at h x of
        Some (GateConfigObj g) \<Rightarrow>
          (case configs_at h d of None \<Rightarrow> None | Some gs \<Rightarrow> Some ((l, g) # gs))
      | _ \<Rightarrow> None)"

definition cnf_at :: "heap \<Rightarrow> addr \<Rightarrow> Cnf option" where
  "cnf_at h rf =
     (case cell_at h rf of
        Some (CnfObj rl rv) \<Rightarrow>
          (case cell_at h rl of
             Some (ClauseListObj cs) \<Rightarrow>
               (case cell_at h rv of
                  Some (VarMapObj vm) \<Rightarrow> Some \<lparr>cnf_raw = cs, var_map = vm\<rparr>
                | _ \<Rightarrow> None)
           | _ \<Rightarrow> None)
      | _ \<Rightarrow> None)"

definition config_dict_at :: "heap \<Rightarrow> addr \<Rightarrow> (Label \<times> GateConfig) list option" where
  "config_dict_at h rd =
     (case cell_at h rd of Some (ConfigDictObj d) \<Rightarrow> configs_at h d | _ \<Rightarrow> None)"

definition read_instance :: "heap \<Rightarrow> addr \<Rightarrow> CircuitSatInstance option" where
  "read_instance h a =
     (case attrs_of h a of
        None \<Rightarrow> None
      | Some (rc, rf, rd) \<Rightarrow>
          (case cell_at h rc of
             Some (CircuitObj c) \<Rightarrow>
               (case cnf_at h rf of
                  None \<Rightarrow> None
                | Some f \<Rightarrow>
                    (case config_dict_at h rd of
                       None \<Rightarrow> None
                     | Some gs \<Rightarrow> Some \<lparr>circuit = c, cnf = f, gates_config = gs\<rparr>))
           | _ \<Rightarrow> None))"

text \<open>
  New objects for an instance given as a value: the circuit, the clause list, the
  variable map, the \<open>Cnf\<close>, one \<open>GateConfig\<close> per label, the \<open>gates_config\<close> dict and the
  instance itself, whose address is returned.
\<close>

definition store_instance :: "heap \<Rightarrow> CircuitSatInstance \<Rightarrow> addr \<times> heap" where
  "store_instance h s =
     (let n = length h; gc = gates_config s; k = length gc in
      (n + k + 5,
       h @ [CircuitObj (circuit s), ClauseListObj (cnf_raw (cnf s)), VarMapObj (var_map (cnf s)),
            CnfObj (n + 1) (n + 2)]
         @ map (\<lambda>p. GateConfigObj (snd p)) gc
         @ [ConfigDictObj (zip (map fst gc) [n + 4 ..< n + 4 + k]), InstanceObj n (n + 3) (n + 4 + k)]))"

text \<open>
  Modelled from the spec: \<open>copy.deepcopy\<close> applied to an instance (Python's library
  function and cirbo's \<open>Circuit\<close> class are not among the sources). Sections 3 and 5 of
  the specification: branching produces an independent deep copy (circuit, CNF,
  gates_config); a copy must duplicate the AIG tables, the CNF clause list and the
  \<open>gates_config\<close> map, not share references. Every object reachable from the instance is
  read, and a new object with the same contents is made for it.
\<close>

definition deepcopy :: "heap \<Rightarrow> addr \<Rightarrow> (addr \<times> heap) option" where
  "deepcopy h a = (case read_instance h a of None \<Rightarrow> None | Some s \<Rightarrow> Some (store_instance h s))"

text \<open>
  For comparison, a copy that the cube driver does not make: a new instance object with
  the attributes of the old one, which refer to the same objects (what \<open>copy.copy\<close>
  gives).
\<close>

definition shallow_copy :: "heap \<Rightarrow> addr \<Rightarrow> (addr \<times> heap) option" where
  "shallow_copy h a =
     (case attrs_of h a of
        None \<Rightarrow> None
      | Some (rc, rf, rd) \<Rightarrow> Some (alloc h (InstanceObj rc rf rd)))"

section \<open>Concrete circuits\<close>

text \<open>
  A circuit with one constant gate, which is also its output (the tests build such a
  circuit for a stuck-at fault).
\<close>

definition const_circuit :: Circuit where
  "const_circuit = \<lparr>gates = [(''t'', mk_gate ''t'' ALWAYS_TRUE [])], inputs = [],
                      outputs = [''t''], users = []\<rparr>"

text \<open>
  Inputs \<open>x\<close>, \<open>y\<close>; \<open>n = NOT x\<close>; \<open>a = AND(x, n)\<close>, which cannot be true;
  \<open>b = AND(a, y)\<close>; the output is \<open>o = NOT b\<close>.
\<close>

definition contradiction_circuit :: Circuit where
  "contradiction_circuit =
     \<lparr>gates = [(''x'', mk_gate ''x'' INPUT []), (''y'', mk_gate ''y'' INPUT []),
               (''n'', mk_gate ''n'' NOT [''x'']), (''a'', mk_gate ''a'' AND [''x'', ''n'']),
               (''b'', mk_gate ''b'' AND [''a'', ''y'']), (''o'', mk_gate ''o'' NOT [''b''])],
      inputs = [''x'', ''y''], outputs = [''o''],
      users = [(''x'', [''n'', ''a'']), (''n'', [''a'']), (''a'', [''b'']), (''y'', [''b'']),
               (''b'', [''o''])]\<rparr>"

definition fresh_config :: "Label \<Rightarrow> Lit \<Rightarrow> bool \<Rightarrow> Label \<times> GateConfig" where
  "fresh_config l i inp = (l, \<lparr>gc_label = l, idx = Some i, is_input = inp, gc_value = None\<rparr>)"

text \<open>The instance that \<open>from_circuit\<close> builds for \<open>contradiction_circuit\<close>.\<close>

definition contradiction_instance :: CircuitSatInstance where
  "contradiction_instance =
     \<lparr>circuit =
        \<lparr>gates = [(''x'', mk_gate ''x'' INPUT []), (''y'', mk_gate ''y'' INPUT []),
                  (''n'', mk_gate ''n'' NOT [''x'']), (''a'', mk_gate ''a'' AND [''x'', ''n''])],
         inputs = [''x'', ''y''], outputs = [],
         users = [(''x'', [''n'', ''a'']), (''n'', [''a''])]\<rparr>,
      cnf =
        \<lparr>cnf_raw = int_clauses [[1, 3], [- 1, - 3], [1, - 4], [3, - 4], [4, - 1, - 3],
                    [4, - 5], [2, - 5], [5, - 4, - 2], [5, 6], [- 5, - 6],
                    [6], [6], [- 5], [- 4, - 2]],
         var_map = [(''x'', 1), (''y'', 2), (''n'', 3), (''a'', 4), (''b'', 5), (''o'', 6)]\<rparr>,
      gates_config =
        [fresh_config ''x'' 1 True, fresh_config ''y'' 2 True, fresh_config ''n'' 3 False,
         fresh_config ''a'' 4 False, fresh_config ''b'' 5 False, fresh_config ''o'' 6 False]\<rparr>"

text \<open>
  \<open>contradiction_instance\<close> after \<open>assign(a, False)\<close>: the gate \<open>a\<close> is gone and two clauses
  have been appended.
\<close>

definition forced_applied_instance :: CircuitSatInstance where
  "forced_applied_instance =
     contradiction_instance
       \<lparr>circuit :=
          \<lparr>gates = [(''x'', mk_gate ''x'' INPUT []), (''y'', mk_gate ''y'' INPUT []),
                    (''n'', mk_gate ''n'' NOT [''x''])],
           inputs = [''x'', ''y''], outputs = [], users = [(''x'', [''n''])]\<rparr>,
        cnf := add_clause (add_clause (cnf contradiction_instance) [Some (- 4)]) [Some (- 1), Some (- 3)]\<rparr>"

text \<open>
  Inputs \<open>a\<close>, \<open>b\<close>; the output is \<open>g = AND(a, b)\<close>; the gate \<open>h = NOT a\<close> is used by
  nothing and is not reachable from the output.
\<close>

definition dangling_circuit :: Circuit where
  "dangling_circuit =
     \<lparr>gates = [(''a'', mk_gate ''a'' INPUT []), (''b'', mk_gate ''b'' INPUT []),
               (''g'', mk_gate ''g'' AND [''a'', ''b'']), (''h'', mk_gate ''h'' NOT [''a''])],
      inputs = [''a'', ''b''], outputs = [''g''],
      users = [(''a'', [''g'', ''h'']), (''b'', [''g''])]\<rparr>"

text \<open>The instance that \<open>from_circuit\<close> builds for \<open>dangling_circuit\<close>.\<close>

definition dangling_instance :: CircuitSatInstance where
  "dangling_instance =
     \<lparr>circuit = empty_circuit,
      cnf = \<lparr>cnf_raw = int_clauses [[1, - 3], [2, - 3], [3, - 1, - 2], [3], [3], [1], [2]],
             var_map = [(''a'', 1), (''b'', 2), (''g'', 3)]\<rparr>,
      gates_config =
        [(''a'', \<lparr>gc_label = ''a'', idx = Some 1, is_input = True, gc_value = Some True\<rparr>),
         (''b'', \<lparr>gc_label = ''b'', idx = Some 2, is_input = True, gc_value = Some True\<rparr>),
         (''g'', \<lparr>gc_label = ''g'', idx = Some 3, is_input = False, gc_value = None\<rparr>),
         (''h'', \<lparr>gc_label = ''h'', idx = None, is_input = False, gc_value = None\<rparr>)]\<rparr>"

text \<open>
  The instance that \<open>CircuitSatInstance.__init__\<close> builds for \<open>dangling_circuit\<close>, before
  the output is assigned: the encoder never reaches \<open>h\<close>, so its \<open>idx\<close> is \<open>None\<close>.
\<close>

definition unnumbered_instance :: CircuitSatInstance where
  "unnumbered_instance =
     \<lparr>circuit = dangling_circuit,
      cnf = \<lparr>cnf_raw = int_clauses [[1, - 3], [2, - 3], [3, - 1, - 2], [3]],
             var_map = [(''a'', 1), (''b'', 2), (''g'', 3)]\<rparr>,
      gates_config =
        [fresh_config ''a'' 1 True, fresh_config ''b'' 2 True, fresh_config ''g'' 3 False,
         (''h'', \<lparr>gc_label = ''h'', idx = None, is_input = False, gc_value = None\<rparr>)]\<rparr>"

text \<open>
  \<open>unnumbered_instance\<close> after \<open>assign(h, True)\<close>: the clause \<open>[None]\<close> and the unit clause
  of \<open>a\<close> have been appended, \<open>a\<close> has the value false, and the simplifier has reduced the
  circuit to the input \<open>b\<close>.
\<close>

definition unnumbered_assigned :: CircuitSatInstance where
  "unnumbered_assigned =
     \<lparr>circuit = \<lparr>gates = [(''b'', mk_gate ''b'' INPUT [])], inputs = [''b''], outputs = [],
                 users = []\<rparr>,
      cnf = \<lparr>cnf_raw = int_clauses [[1, - 3], [2, - 3], [3, - 1, - 2], [3]] @ [[None], [Some (- 1)]],
             var_map = [(''a'', 1), (''b'', 2), (''g'', 3)]\<rparr>,
      gates_config =
        [(''a'', \<lparr>gc_label = ''a'', idx = Some 1, is_input = True, gc_value = Some False\<rparr>),
         fresh_config ''b'' 2 True, fresh_config ''g'' 3 False,
         (''h'', \<lparr>gc_label = ''h'', idx = None, is_input = False, gc_value = None\<rparr>)]\<rparr>"

text \<open>A backend that answers SAT for every formula.\<close>

definition sat_backend :: "Cnf \<Rightarrow> PySatResult" where
  "sat_backend f = \<lparr>answer = True, model = Some []\<rparr>"

text \<open>
  \<open>contradiction_instance\<close> at the point where \<open>assign(a, True)\<close> returns CONFLICT: \<open>a\<close>,
  \<open>x\<close> and \<open>n\<close> have been replaced by constants and three unit clauses appended.
\<close>

definition conflicting_instance :: CircuitSatInstance where
  "conflicting_instance =
     contradiction_instance
       \<lparr>circuit :=
          \<lparr>gates = [(''x'', mk_gate ''x'' ALWAYS_TRUE []), (''y'', mk_gate ''y'' INPUT []),
                    (''n'', mk_gate ''n'' ALWAYS_TRUE []), (''a'', mk_gate ''a'' ALWAYS_TRUE [])],
           inputs = [''y''], outputs = [], users = [(''x'', []), (''n'', [])]\<rparr>,
        cnf := add_clause (add_clause (add_clause (cnf contradiction_instance) [Some 4]) [Some 1]) [Some 3],
        gates_config := set_value (gates_config contradiction_instance) ''x'' True\<rparr>"

text \<open>
  A circuit with a constant operand: \<open>g = AND(x, t)\<close> with \<open>t\<close> constant true,
  \<open>h = NOT g\<close>, and the output \<open>k = AND(h, x)\<close>; and what the simplifier makes of it.
\<close>

definition folding_circuit :: Circuit where
  "folding_circuit =
     \<lparr>gates = [(''x'', mk_gate ''x'' INPUT []), (''t'', mk_gate ''t'' ALWAYS_TRUE []),
               (''g'', mk_gate ''g'' AND [''x'', ''t'']), (''h'', mk_gate ''h'' NOT [''g'']),
               (''k'', mk_gate ''k'' AND [''h'', ''x''])],
      inputs = [''x''], outputs = [''k''],
      users = [(''x'', [''g'', ''k'']), (''t'', [''g'']), (''g'', [''h'']), (''h'', [''k''])]\<rparr>"

definition folded_circuit :: Circuit where
  "folded_circuit =
     \<lparr>gates = [(''x'', mk_gate ''x'' INPUT []), (''h'', mk_gate ''h'' NOT [''x'']),
               (''k'', mk_gate ''k'' AND [''h'', ''x''])],
      inputs = [''x''], outputs = [''k''],
      users = [(''x'', [''h'', ''k'']), (''h'', [''k''])]\<rparr>"

section \<open>Auxiliary notions\<close>

text \<open>
  The instance after \<open>_assign_and_propagate(g, False)\<close> on an AND gate \<open>g\<close> whose literal
  is \<open>vg\<close> and whose operands have the literals \<open>v0\<close> and \<open>v1\<close>.
\<close>

definition and_false_result :: "CircuitSatInstance \<Rightarrow> Label \<Rightarrow> Gate \<Rightarrow> Lit \<Rightarrow> Lit \<Rightarrow> Lit \<Rightarrow> CircuitSatInstance" where
  "and_false_result s g gate vg v0 v1 =
     s\<lparr>cnf := add_clause (add_clause (cnf s) [Some (- vg)]) [Some (- v0), Some (- v1)],
       circuit := (fold (\<lambda>operand c. remove_user c operand g) (operands gate) (circuit s))
                    \<lparr>gates := AList.update g (mk_gate g ALWAYS_FALSE []) (gates (circuit s))\<rparr>\<rparr>"

text \<open>
  What an assignment keeps: the variable map, the labels of \<open>gates_config\<close> with their
  \<open>idx\<close>, and the clauses already present.
\<close>

definition numbering_kept :: "CircuitSatInstance \<Rightarrow> CircuitSatInstance \<Rightarrow> bool" where
  "numbering_kept s s' =
     (var_map (cnf s') = var_map (cnf s)
      \<and> map (\<lambda>p. (fst p, idx (snd p))) (gates_config s') = map (\<lambda>p. (fst p, idx (snd p))) (gates_config s)
      \<and> (\<exists>cs. cnf_raw (cnf s') = cnf_raw (cnf s) @ cs))"

text \<open>
  A list of gates is a topological enumeration of a circuit when it holds exactly the
  gates of the circuit, no label twice, and every operand of a gate stands before the
  gate (\<open>seen\<close> are the labels that stand before).
\<close>

fun operands_first :: "Label list \<Rightarrow> Gate list \<Rightarrow> bool" where
  "operands_first seen [] = True"
| "operands_first seen (g # gs) =
     (list_all (\<lambda>op. op \<in> set seen) (operands g) \<and> label g \<notin> set seen
      \<and> operands_first (seen @ [label g]) gs)"

definition topological_enumeration :: "Circuit \<Rightarrow> Gate list \<Rightarrow> bool" where
  "topological_enumeration c order =
     (set order = snd ` set (gates c) \<and> operands_first [] order)"

text \<open>
  What every circuit built by \<open>emplace_gate\<close> alone satisfies: distinct labels, each
  gate stored under its own label and of the right arity; the simplifier adds no
  constant gate. \<open>insertion_ordered\<close>: the gates were inserted operands first.
\<close>

definition well_built :: "Circuit \<Rightarrow> bool" where
  "well_built c =
     (distinct (map fst (gates c))
      \<and> (\<forall>p\<in>set (gates c). label (snd p) = fst p \<and> \<not> is_constant (gate_type (snd p))
             \<and> arity_ok (gate_type (snd p)) (length (operands (snd p)))))"

definition insertion_ordered :: "Circuit \<Rightarrow> bool" where
  "insertion_ordered c = operands_first [] (map snd (gates c))"

subsection \<open>The Tseytin encoding\<close>

text \<open>\<open>v(l)\<close>: the variable of a label in a variable map (0 for a label without variable).\<close>

definition lookup :: "VarMap \<Rightarrow> Label \<Rightarrow> Lit" where
  "lookup vm l = (case map_of vm l of None \<Rightarrow> 0 | Some v \<Rightarrow> v)"

text \<open>
  The gates reachable from a root: the root, and every operand of a reachable gate.
  \<open>reachable\<close> are the gates reachable from some output.
\<close>

inductive_set reach :: "Circuit \<Rightarrow> Label \<Rightarrow> Label set" for c :: Circuit and root :: Label where
  root: "root \<in> reach c root"
| operand: "l \<in> reach c root \<Longrightarrow> get_gate c l = Inr g \<Longrightarrow> op \<in> set (operands g) \<Longrightarrow>
            op \<in> reach c root"

definition reachable :: "Circuit \<Rightarrow> Label set" where
  "reachable c = (\<Union>r\<in>set (outputs c). reach c r)"

text \<open>
  The clauses that section 4.2 of the specification lists for a gate with variable \<open>t\<close>
  and operand variables \<open>ls\<close>, each clause as the set of its literals: none for INPUT,
  \<open>[t]\<close> for ALWAYS_TRUE, \<open>[\<not>t]\<close> for ALWAYS_FALSE, \<open>[a, t]\<close> and \<open>[\<not>a, \<not>t]\<close> for NOT(a),
  \<open>[a, \<not>t]\<close>, \<open>[b, \<not>t]\<close> and \<open>[\<not>a, \<not>b, t]\<close> for AND(a, b). \<open>spec_encoding\<close> are these
  clauses for the gate stored under a label, with the variables of a variable map.
\<close>

fun spec_clauses :: "GateType \<Rightarrow> Lit \<Rightarrow> Lit list \<Rightarrow> Lit set list" where
  "spec_clauses INPUT t ls = []"
| "spec_clauses ALWAYS_TRUE t ls = [{t}]"
| "spec_clauses ALWAYS_FALSE t ls = [{- t}]"
| "spec_clauses NOT t [a] = [{a, t}, {- a, - t}]"
| "spec_clauses AND t [a, b] = [{a, - t}, {b, - t}, {- a, - b, t}]"
| "spec_clauses g t ls = []"

definition spec_encoding :: "Circuit \<Rightarrow> VarMap \<Rightarrow> Label \<Rightarrow> Lit set list" where
  "spec_encoding c vm l =
     (case get_gate c l of
        Inl e \<Rightarrow> []
      | Inr g \<Rightarrow> spec_clauses (gate_type g) (lookup vm l) (map (lookup vm) (operands g)))"

text \<open>
  An AIG circuit: every gate is an INPUT or a constant without operands, a NOT with one
  operand or an AND with two; every operand is a gate of the circuit and has a smaller
  rank than the gate that uses it, so the graph has no cycle; the labels in \<open>inputs\<close> are
  INPUT gates and the outputs are gates of the circuit.
\<close>

definition aig_gate :: "Gate \<Rightarrow> bool" where
  "aig_gate g =
     (if gate_type g = INPUT \<or> gate_type g = ALWAYS_TRUE \<or> gate_type g = ALWAYS_FALSE
      then operands g = []
      else if gate_type g = NOT then length (operands g) = 1
      else if gate_type g = AND then length (operands g) = 2
      else False)"

definition aig_circuit :: "Circuit \<Rightarrow> (Label \<Rightarrow> nat) \<Rightarrow> bool" where
  "aig_circuit c rk =
     (list_all (\<lambda>p. aig_gate (snd p)
                  \<and> list_all (\<lambda>op. op \<in> fst ` set (gates c) \<and> rk op < rk (fst p)) (operands (snd p)))
        (gates c)
      \<and> list_all (\<lambda>i. map_option gate_type (map_of (gates c) i) = Some INPUT) (inputs c)
      \<and> list_all (\<lambda>r. r \<in> fst ` set (gates c)) (outputs c))"

text \<open>
  The clauses that the loop body of \<open>_process_all\<close> appends for the gate stored under a
  label, with the variables of a variable map; the unit clauses of a list of roots.
\<close>

definition gate_encoding :: "Circuit \<Rightarrow> VarMap \<Rightarrow> Label \<Rightarrow> CnfRaw" where
  "gate_encoding c vm l =
     (case get_gate c l of
        Inl e \<Rightarrow> []
      | Inr g \<Rightarrow>
          (case gate_clauses (gate_type g) (lookup vm l) (map (lookup vm) (operands g)) of
             Inl e \<Rightarrow> []
           | Inr cs \<Rightarrow> cs))"

definition units :: "VarMap \<Rightarrow> Label list \<Rightarrow> CnfRaw" where
  "units vm rs = map (\<lambda>r. [lookup vm r]) rs"

text \<open>
  The invariant of the encoder state: the labels with a variable are distinct and so are
  their variables, which lie between 1 and the counter; the operands of a gate with a
  variable have a variable. \<open>extends c s s' order\<close>: from \<open>s\<close> to \<open>s'\<close> the gates of \<open>order\<close>,
  which had no variable, got one in this order, and their clauses were appended in this
  order.
\<close>

definition saved :: "TseytinState \<Rightarrow> Label set" where
  "saved s = fst ` set (saved_lits s)"

definition good :: "Circuit \<Rightarrow> TseytinState \<Rightarrow> bool" where
  "good c s =
     (distinct (map fst (saved_lits s)) \<and> distinct (map snd (saved_lits s))
      \<and> 0 \<le> next_lit s
      \<and> (\<forall>p\<in>set (saved_lits s). 1 \<le> snd p \<and> snd p \<le> next_lit s)
      \<and> (\<forall>l\<in>saved s. \<forall>g. get_gate c l = Inr g \<longrightarrow> set (operands g) \<subseteq> saved s))"

definition extends :: "Circuit \<Rightarrow> TseytinState \<Rightarrow> TseytinState \<Rightarrow> Label list \<Rightarrow> bool" where
  "extends c s s' order =
     (good c s' \<and> distinct order
      \<and> (\<exists>added. saved_lits s' = saved_lits s @ added \<and> map fst added = order)
      \<and> clauses_acc s' = clauses_acc s @ concat (map (gate_encoding c (saved_lits s')) order))"

text \<open>
  A rank for \<open>contradiction_circuit\<close>, and the formula that \<open>tseytin_transformation\<close>
  returns for it.
\<close>

definition contradiction_rank :: "Label \<Rightarrow> nat" where
  "contradiction_rank l =
     (if l = ''n'' then 1 else if l = ''a'' then 2 else if l = ''b'' then 3
      else if l = ''o'' then 4 else 0)"

definition contradiction_clauses :: CnfRaw where
  "contradiction_clauses =
     [[1, 3], [- 1, - 3], [1, - 4], [3, - 4], [4, - 1, - 3],
      [4, - 5], [2, - 5], [5, - 4, - 2], [5, 6], [- 5, - 6], [6]]"

definition contradiction_cnf :: Cnf where
  "contradiction_cnf =
     \<lparr>cnf_raw = int_clauses contradiction_clauses,
      var_map = [(''x'', 1), (''y'', 2), (''n'', 3), (''a'', 4), (''b'', 5), (''o'', 6)]\<rparr>"

subsection \<open>The object store\<close>

text \<open>
  A store that holds \<open>contradiction_instance\<close>, at address 11; the store after a deep
  copy of it, which puts the copy at address 23; that store after \<open>assign(a, False)\<close> and
  \<open>assign(y, True)\<close> on the copy. For comparison, the store after a shallow copy, which
  puts a second instance object at address 12, and after \<open>assign(a, False)\<close> on it.
\<close>

definition contradiction_store :: heap where
  "contradiction_store = snd (store_instance [] contradiction_instance)"

definition copied_store :: heap where
  "copied_store = snd (store_instance contradiction_store contradiction_instance)"

definition branch_store :: heap where
  "branch_store = the (final_heap (store_assigns copied_store 23 [(''a'', False), (''y'', True)]))"

definition shared_store :: heap where
  "shared_store = contradiction_store @ [InstanceObj 0 3 10]"

definition shared_branch_store :: heap where
  "shared_branch_store = the (final_heap (store_assigns shared_store 12 [(''a'', False)]))"

text \<open>
  The references an object holds. \<open>separate n h\<close>: no object at an address from \<open>n\<close> on
  refers to an object below \<open>n\<close>. \<open>kept n h h'\<close>: the objects below \<open>n\<close> are the same in \<open>h'\<close>
  as in \<open>h\<close>, and \<open>h'\<close> is separate.
\<close>

fun refs :: "cell \<Rightarrow> addr list" where
  "refs (InstanceObj rc rf rd) = [rc, rf, rd]"
| "refs (CnfObj rl rv) = [rl, rv]"
| "refs (ConfigDictObj d) = map snd d"
| "refs c = []"

definition separate :: "nat \<Rightarrow> heap \<Rightarrow> bool" where
  "separate n h =
     (n \<le> length h \<and> (\<forall>x. n \<le> x \<and> x < length h \<longrightarrow> (\<forall>r\<in>set (refs (h ! x)). n \<le> r)))"

definition kept :: "nat \<Rightarrow> heap \<Rightarrow> heap \<Rightarrow> bool" where
  "kept n h h' = (take n h' = take n h \<and> separate n h')"

text \<open>
  The outline of an object: its class and its references, without its contents. The
  instance at \<open>a\<close> is \<open>sound\<close> when each of its references leads to an object of the
  expected class; \<open>safe r a\<close>: the call left a store, in which the instance is sound.
\<close>

definition blank_config :: GateConfig where
  "blank_config = \<lparr>gc_label = [], idx = None, is_input = False, gc_value = None\<rparr>"

fun outline :: "cell \<Rightarrow> cell" where
  "outline (InstanceObj rc rf rd) = InstanceObj rc rf rd"
| "outline (CircuitObj c) = CircuitObj empty_circuit"
| "outline (CnfObj rl rv) = CnfObj rl rv"
| "outline (ClauseListObj cs) = ClauseListObj []"
| "outline (VarMapObj vm) = VarMapObj []"
| "outline (ConfigDictObj d) = ConfigDictObj d"
| "outline (GateConfigObj g) = GateConfigObj blank_config"

definition outline_at :: "heap \<Rightarrow> addr \<Rightarrow> cell option" where
  "outline_at h x = map_option outline (cell_at h x)"

definition shaped :: "heap \<Rightarrow> addr \<Rightarrow> addr \<Rightarrow> addr \<Rightarrow> addr \<Rightarrow> addr \<Rightarrow> addr \<Rightarrow> (Label \<times> addr) list \<Rightarrow> bool" where
  "shaped h a rc rf rd rl rv d =
     (outline_at h a = Some (InstanceObj rc rf rd)
      \<and> outline_at h rc = Some (CircuitObj empty_circuit)
      \<and> outline_at h rf = Some (CnfObj rl rv)
      \<and> outline_at h rl = Some (ClauseListObj [])
      \<and> outline_at h rv = Some (VarMapObj [])
      \<and> outline_at h rd = Some (ConfigDictObj d)
      \<and> (\<forall>x\<in>set (map snd d). outline_at h x = Some (GateConfigObj blank_config)))"

definition sound :: "heap \<Rightarrow> addr \<Rightarrow> bool" where
  "sound h a = (\<exists>rc rf rd rl rv d. shaped h a rc rf rd rl rv d)"

definition safe :: "'a outcome \<Rightarrow> addr \<Rightarrow> bool" where
  "safe r a = (case final_heap r of None \<Rightarrow> False | Some h' \<Rightarrow> sound h' a)"

section \<open>Properties\<close>

subsection \<open>The Tseytin encoding\<close>

lemma get_gate_mem: "get_gate c l = Inr g \<Longrightarrow> (l, g) \<in> set (gates c)"
  by (auto simp: get_gate_def split: option.splits dest: map_of_SomeD)

lemma get_gate_exists: "l \<in> fst ` set (gates c) \<Longrightarrow> \<exists>g. get_gate c l = Inr g"
  by (cases "map_of (gates c) l") (auto simp: get_gate_def map_of_eq_None_iff)

lemma aig_circuit_gate:
  assumes "aig_circuit c rk" "get_gate c l = Inr g"
  shows "aig_gate g" and "\<And>op. op \<in> set (operands g) \<Longrightarrow> op \<in> fst ` set (gates c) \<and> rk op < rk l"
  using assms get_gate_mem [OF assms(2)] by (auto simp: aig_circuit_def list_all_iff)

lemma reach_rank:
  assumes "aig_circuit c rk" "x \<in> reach c l"
  shows "rk x \<le> rk l"
  using assms(2)
proof (induction rule: reach.induct)
  case root
  then show ?case by simp
next
  case (operand l' g op)
  with aig_circuit_gate(2) [OF assms(1) operand(2) operand(3)] show ?case by simp
qed

lemma reach_unfold:
  assumes "get_gate c l = Inr g"
  shows "reach c l = insert l (\<Union>op\<in>set (operands g). reach c op)"
proof (intro set_eqI iffI)
  fix x assume "x \<in> reach c l"
  then show "x \<in> insert l (\<Union>op\<in>set (operands g). reach c op)"
  proof (induction rule: reach.induct)
    case root
    then show ?case by simp
  next
    case (operand l' g' op)
    from operand(4) show ?case
    proof
      assume "l' = l"
      with operand(2,3) assms show ?thesis by (auto intro: reach.root)
    next
      assume "l' \<in> (\<Union>op\<in>set (operands g). reach c op)"
      with operand(2,3) show ?thesis by (auto intro: reach.operand)
    qed
  qed
next
  fix x assume "x \<in> insert l (\<Union>op\<in>set (operands g). reach c op)"
  then show "x \<in> reach c l"
  proof
    assume "x = l" then show ?thesis by (simp add: reach.root)
  next
    assume "x \<in> (\<Union>op\<in>set (operands g). reach c op)"
    then obtain op where op: "op \<in> set (operands g)" "x \<in> reach c op" by blast
    from op(2) show ?thesis
    proof (induction rule: reach.induct)
      case root
      from reach.operand [OF reach.root assms op(1)] show ?case .
    next
      case (operand l' g' op')
      then show ?case by (auto intro: reach.operand)
    qed
  qed
qed

lemma good_closed:
  assumes "good c s" "l \<in> saved s"
  shows "reach c l \<subseteq> saved s"
proof
  fix x assume "x \<in> reach c l"
  then show "x \<in> saved s"
    by (induction rule: reach.induct) (use assms in \<open>auto simp: good_def\<close>)
qed

lemma map_of_append_left: "l \<in> fst ` set xs \<Longrightarrow> map_of (xs @ ys) l = map_of xs l"
  by (simp add: map_add_dom_app_simps dom_map_of_conv_image_fst)

lemma lookup_append_left: "l \<in> fst ` set xs \<Longrightarrow> lookup (xs @ ys) l = lookup xs l"
  using map_of_append_left [of l xs ys] by (simp add: lookup_def del: map_of_append)

lemma saved_lit_known:
  "l \<in> saved s \<Longrightarrow> saved_lit s l = (lookup (saved_lits s) l, s)"
  by (cases "map_of (saved_lits s) l") (auto simp: saved_lit_def saved_def lookup_def map_of_eq_None_iff)

lemma saved_lits_of_known:
  "set ops \<subseteq> saved s \<Longrightarrow> saved_lits_of s ops = (map (lookup (saved_lits s)) ops, s)"
  by (induction ops) (auto simp: saved_lit_known)

lemma saved_lit_new:
  "l \<notin> saved s \<Longrightarrow>
   saved_lit s l = (next_lit s + 1,
     s\<lparr>next_lit := next_lit s + 1, saved_lits := saved_lits s @ [(l, next_lit s + 1)]\<rparr>)"
proof -
  assume "l \<notin> saved s"
  then have "map_of (saved_lits s) l = None"
    by (simp add: map_of_eq_None_iff saved_def)
  then show ?thesis by (simp add: saved_lit_def)
qed

lemma gate_encoding_stable:
  assumes "good c s" "l \<in> saved s"
  shows "gate_encoding c (saved_lits s @ added) l = gate_encoding c (saved_lits s) l"
proof (cases "get_gate c l")
  case (Inl e)
  then show ?thesis by (simp add: gate_encoding_def)
next
  case (Inr g)
  with assms have "set (operands g) \<subseteq> saved s" by (auto simp: good_def)
  then have h1: "map (lookup (saved_lits s @ added)) (operands g) = map (lookup (saved_lits s)) (operands g)"
    by (intro map_cong refl lookup_append_left) (auto simp: saved_def)
  from assms(2) have h2: "lookup (saved_lits s @ added) l = lookup (saved_lits s) l"
    by (simp add: saved_def lookup_append_left)
  show ?thesis using h1 h2 by (simp add: gate_encoding_def Inr del: map_eq_conv)
qed

lemma extends_refl: "good c s \<Longrightarrow> extends c s s []"
  by (simp add: extends_def)

lemma extends_saved: "extends c s s' order \<Longrightarrow> saved s' = saved s \<union> set order"
proof -
  assume "extends c s s' order"
  then obtain added where a: "saved_lits s' = saved_lits s @ added" "map fst added = order"
    by (auto simp: extends_def)
  from a(1) have "fst ` set (saved_lits s') = fst ` set (saved_lits s) \<union> set (map fst added)"
    by (simp add: image_Un)
  with a(2) show ?thesis by (simp add: saved_def)
qed

lemma extends_good: "extends c s s' order \<Longrightarrow> good c s'"
  by (simp add: extends_def)

lemma extends_fresh: "extends c s s' order \<Longrightarrow> set order \<inter> saved s = {}"
proof -
  assume e: "extends c s s' order"
  then obtain added where a: "saved_lits s' = saved_lits s @ added" "map fst added = order"
    by (auto simp: extends_def)
  from e have "distinct (map fst (saved_lits s'))" by (simp add: extends_def good_def)
  with a have "set (map fst (saved_lits s)) \<inter> set (map fst added) = {}" by simp
  with a(2) show ?thesis by (auto simp: saved_def)
qed

lemma extends_trans:
  assumes "extends c s s1 o1" "extends c s1 s2 o2"
  shows "extends c s s2 (o1 @ o2)"
proof -
  from assms obtain m1 m2 where
    m1: "saved_lits s1 = saved_lits s @ m1" "map fst m1 = o1"
    and m2: "saved_lits s2 = saved_lits s1 @ m2" "map fst m2 = o2"
    by (auto simp: extends_def)
  have g1: "good c s1" and g2: "good c s2" using assms by (simp_all add: extends_def)
  have o1s: "set o1 \<subseteq> saved s1" using extends_saved [OF assms(1)] by simp
  have st: "gate_encoding c (saved_lits s2) x = gate_encoding c (saved_lits s1) x"
    if "x \<in> set o1" for x
    using gate_encoding_stable [OF g1, of x m2] that o1s m2(1) by auto
  have d: "distinct (o1 @ o2)"
    using assms extends_fresh [OF assms(2)] o1s by (auto simp: extends_def)
  have "clauses_acc s2 = clauses_acc s @ concat (map (gate_encoding c (saved_lits s2)) (o1 @ o2))"
    using assms st by (simp add: extends_def cong: map_cong)
  with g2 d m1 m2 show ?thesis by (auto simp: extends_def)
qed

lemma saved_iff: "(map_of (saved_lits s) l = None) = (l \<notin> saved s)"
  by (simp add: map_of_eq_None_iff saved_def)

lemma gate_clauses_aig:
  "aig_gate g \<Longrightarrow> \<exists>cs. gate_clauses (gate_type g) t (map f (operands g)) = Inr cs"
  by (cases "operands g") (auto simp: aig_gate_def gate_clauses_def split: if_splits)

lemma lookup_new: "l \<notin> fst ` set xs \<Longrightarrow> lookup (xs @ [(l, v)]) l = v"
  by (simp add: lookup_def map_add_def map_of_eq_None_iff [THEN iffD2])

lemma encode_step:
  assumes "aig_gate g" "good c s" "get_gate c l = Inr g" "l \<notin> saved s"
    and "set (operands g) \<subseteq> saved s"
  shows "\<exists>s'. encode_gate s g l = Inr s' \<and> extends c s s' [l]"
proof -
  define n where "n = next_lit s + 1"
  define lits where "lits = map (lookup (saved_lits s)) (operands g)"
  define s2 where "s2 = s\<lparr>next_lit := n, saved_lits := saved_lits s @ [(l, n)]\<rparr>"
  from gate_clauses_aig [OF assms(1)] obtain cs where
    cs: "gate_clauses (gate_type g) n lits = Inr cs" unfolding lits_def by blast
  define s' where "s' = append_clauses s2 cs"
  have fields: "saved_lits s' = saved_lits s @ [(l, n)]" "next_lit s' = n"
    "clauses_acc s' = clauses_acc s @ cs"
    by (simp_all add: s'_def s2_def append_clauses_def)
  have enc: "encode_gate s g l = Inr s'"
    using saved_lits_of_known [OF assms(5)] saved_lit_new [OF assms(4)] cs
    by (simp add: encode_gate_def s'_def s2_def n_def lits_def)
  have sv: "saved s' = insert l (saved s)"
    by (auto simp: saved_def fields)
  have d1: "distinct (map fst (saved_lits s'))"
    using assms(2,4) by (simp add: good_def saved_def fields)
  have nn: "n \<notin> snd ` set (saved_lits s)"
  proof
    assume "n \<in> snd ` set (saved_lits s)"
    then obtain p where "p \<in> set (saved_lits s)" "snd p = n" by auto
    with assms(2) have "n \<le> next_lit s" by (auto simp: good_def)
    then show False by (simp add: n_def)
  qed
  have d2: "distinct (map snd (saved_lits s'))"
    using assms(2) nn by (simp add: good_def fields)
  have n0: "0 \<le> next_lit s'"
    using assms(2) by (simp add: good_def fields n_def)
  have rg: "\<forall>p\<in>set (saved_lits s'). 1 \<le> snd p \<and> snd p \<le> next_lit s'"
  proof
    fix p assume "p \<in> set (saved_lits s')"
    then have "p \<in> set (saved_lits s) \<or> p = (l, n)" by (auto simp: fields)
    then show "1 \<le> snd p \<and> snd p \<le> next_lit s'"
    proof
      assume "p \<in> set (saved_lits s)"
      with assms(2) have "1 \<le> snd p \<and> snd p \<le> next_lit s" by (simp add: good_def)
      then show ?thesis by (simp add: fields n_def)
    next
      assume p: "p = (l, n)"
      from assms(2) have "0 \<le> next_lit s" by (simp add: good_def)
      with p show ?thesis by (simp add: fields n_def)
    qed
  qed
  have cl: "\<forall>x\<in>saved s'. \<forall>g'. get_gate c x = Inr g' \<longrightarrow> set (operands g') \<subseteq> saved s'"
  proof (intro ballI allI impI)
    fix x g' assume x: "x \<in> saved s'" "get_gate c x = Inr g'"
    show "set (operands g') \<subseteq> saved s'"
    proof (cases "x = l")
      case True
      with x(2) assms(3,5) show ?thesis by (auto simp: sv)
    next
      case False
      with x(1) have "x \<in> saved s" by (simp add: sv)
      with assms(2) x(2) have "set (operands g') \<subseteq> saved s" by (auto simp: good_def)
      then show ?thesis by (auto simp: sv)
    qed
  qed
  from d1 d2 n0 rg cl have good': "good c s'" unfolding good_def by blast
  have l1: "lookup (saved_lits s') l = n"
    using assms(4) by (simp add: fields saved_def lookup_new)
  have l2: "map (lookup (saved_lits s')) (operands g) = lits"
    unfolding lits_def fields using assms(5)
    by (intro map_cong refl lookup_append_left) (auto simp: saved_def)
  have "gate_encoding c (saved_lits s') l = cs"
    using assms(3) cs l1 l2 by (simp add: gate_encoding_def del: map_eq_conv)
  then have "extends c s s' [l]"
    using good' by (simp add: extends_def fields)
  with enc show ?thesis by blast
qed

text \<open>
  The traversal of one label: popping \<open>(l, False)\<close> from the stack leads, after finitely
  many iterations, to the rest of the stack, with exactly the gates reachable from \<open>l\<close>
  that had no variable encoded, each once. The recursion is on the rank of \<open>l\<close>.
\<close>

lemma process_label:
  assumes aig: "aig_circuit c rk"
  shows "l \<in> fst ` set (gates c) \<Longrightarrow> good c s \<Longrightarrow>
     \<exists>s' order. process_stack c ((l, False) # rest) s = process_stack c rest s'
       \<and> extends c s s' order \<and> saved s' = saved s \<union> reach c l"
proof (induction "rk l" arbitrary: l s rest rule: less_induct)
  case less
  show ?case
  proof (cases "l \<in> saved s")
    case True
    then have "process_stack c ((l, False) # rest) s = process_stack c rest s"
      by (subst process_stack.simps) (simp add: saved_iff)
    moreover from good_closed [OF less.prems(2) True] have "saved s = saved s \<union> reach c l"
      by auto
    ultimately show ?thesis using extends_refl [OF less.prems(2)] by blast
  next
    case False
    from get_gate_exists [OF less.prems(1)] obtain g where g: "get_gate c l = Inr g" by blast
    note gp = aig_circuit_gate [OF aig g]
    have Q: "\<exists>s' order. process_stack c (map (\<lambda>op. (op, False)) ps @ rest') s0 = process_stack c rest' s'
               \<and> extends c s0 s' order \<and> saved s' = saved s0 \<union> (\<Union>p\<in>set ps. reach c p)"
      if "\<forall>p\<in>set ps. rk p < rk l \<and> p \<in> fst ` set (gates c)" "good c s0" for ps s0 rest'
      using that
    proof (induction ps arbitrary: s0)
      case Nil
      then show ?case using extends_refl by fastforce
    next
      case (Cons p ps)
      from Cons.prems(1) have p: "rk p < rk l" "p \<in> fst ` set (gates c)" by simp_all
      from less.hyps [OF p Cons.prems(2), of "map (\<lambda>op. (op, False)) ps @ rest'"]
      obtain s1 o1 where
        s1: "process_stack c ((p, False) # map (\<lambda>op. (op, False)) ps @ rest') s0
               = process_stack c (map (\<lambda>op. (op, False)) ps @ rest') s1"
          "extends c s0 s1 o1" "saved s1 = saved s0 \<union> reach c p"
        by blast
      from Cons.prems(1) have "\<forall>p\<in>set ps. rk p < rk l \<and> p \<in> fst ` set (gates c)" by simp
      from Cons.IH [OF this extends_good [OF s1(2)]] obtain s2 o2 where
        s2: "process_stack c (map (\<lambda>op. (op, False)) ps @ rest') s1 = process_stack c rest' s2"
          "extends c s1 s2 o2" "saved s2 = saved s1 \<union> (\<Union>p\<in>set ps. reach c p)"
        by blast
      from s1 s2 extends_trans [OF s1(2) s2(2)] show ?case by auto
    qed
    let ?ps = "filter (\<lambda>op. op \<notin> saved s) (operands g)"
    have unfold1: "process_stack c ((l, False) # rest) s
        = process_stack c (map (\<lambda>op. (op, False)) ?ps @ (l, True) # rest) s"
      using False g by (subst process_stack.simps) (simp add: saved_iff)
    have "\<forall>p\<in>set ?ps. rk p < rk l \<and> p \<in> fst ` set (gates c)"
      using gp(2) by auto
    from Q [OF this less.prems(2), of "(l, True) # rest"] obtain s1 o1 where
      s1: "process_stack c (map (\<lambda>op. (op, False)) ?ps @ (l, True) # rest) s
             = process_stack c ((l, True) # rest) s1"
        "extends c s s1 o1" "saved s1 = saved s \<union> (\<Union>p\<in>set ?ps. reach c p)"
      by blast
    have ops_reach: "saved s1 = saved s \<union> (\<Union>p\<in>set (operands g). reach c p)"
    proof -
      have "reach c p \<subseteq> saved s" if "p \<in> set (operands g)" "p \<in> saved s" for p
        using good_closed [OF less.prems(2) that(2)] .
      with s1(3) show ?thesis by auto
    qed
    have fresh: "l \<notin> saved s1"
    proof
      assume "l \<in> saved s1"
      with False ops_reach obtain p where "p \<in> set (operands g)" "l \<in> reach c p" by auto
      with reach_rank [OF aig this(2)] gp(2) [OF this(1)] show False by simp
    qed
    have ops_saved: "set (operands g) \<subseteq> saved s1"
      unfolding ops_reach by (auto intro: reach.root)
    from encode_step [OF gp(1) extends_good [OF s1(2)] g fresh ops_saved] obtain s2 where
      s2: "encode_gate s1 g l = Inr s2" "extends c s1 s2 [l]" by blast
    have unfold2: "process_stack c ((l, True) # rest) s1 = process_stack c rest s2"
      using fresh g s2(1) by (subst process_stack.simps) (simp add: saved_iff)
    have "saved s2 = saved s \<union> reach c l"
      using extends_saved [OF s2(2)] ops_reach reach_unfold [OF g] by auto
    with unfold1 s1(1) unfold2 extends_trans [OF s1(2) s2(2)] show ?thesis by auto
  qed
qed

lemma good_add:
  assumes "good c s" "l \<notin> saved s"
    and ops: "\<And>g. get_gate c l = Inr g \<Longrightarrow> set (operands g) \<subseteq> insert l (saved s)"
  shows "good c (s\<lparr>next_lit := next_lit s + 1, saved_lits := saved_lits s @ [(l, next_lit s + 1)]\<rparr>)"
proof -
  define n where "n = next_lit s + 1"
  define s' where "s' = s\<lparr>next_lit := n, saved_lits := saved_lits s @ [(l, n)]\<rparr>"
  have fields: "saved_lits s' = saved_lits s @ [(l, n)]" "next_lit s' = n"
    by (simp_all add: s'_def)
  have sv: "saved s' = insert l (saved s)"
    by (auto simp: saved_def fields)
  have d1: "distinct (map fst (saved_lits s'))"
    using assms(1,2) by (simp add: good_def saved_def fields)
  have nn: "n \<notin> snd ` set (saved_lits s)"
  proof
    assume "n \<in> snd ` set (saved_lits s)"
    then obtain p where "p \<in> set (saved_lits s)" "snd p = n" by auto
    with assms(1) have "n \<le> next_lit s" by (auto simp: good_def)
    then show False by (simp add: n_def)
  qed
  have d2: "distinct (map snd (saved_lits s'))"
    using assms(1) nn by (simp add: good_def fields)
  have n0: "0 \<le> next_lit s'"
    using assms(1) by (simp add: good_def fields n_def)
  have rg: "\<forall>p\<in>set (saved_lits s'). 1 \<le> snd p \<and> snd p \<le> next_lit s'"
  proof
    fix p assume "p \<in> set (saved_lits s')"
    then have "p \<in> set (saved_lits s) \<or> p = (l, n)" by (auto simp: fields)
    then show "1 \<le> snd p \<and> snd p \<le> next_lit s'"
    proof
      assume "p \<in> set (saved_lits s)"
      with assms(1) have "1 \<le> snd p \<and> snd p \<le> next_lit s" by (simp add: good_def)
      then show ?thesis by (simp add: fields n_def)
    next
      assume p: "p = (l, n)"
      from assms(1) have "0 \<le> next_lit s" by (simp add: good_def)
      with p show ?thesis by (simp add: fields n_def)
    qed
  qed
  have cl: "\<forall>x\<in>saved s'. \<forall>g'. get_gate c x = Inr g' \<longrightarrow> set (operands g') \<subseteq> saved s'"
  proof (intro ballI allI impI)
    fix x g' assume x: "x \<in> saved s'" "get_gate c x = Inr g'"
    show "set (operands g') \<subseteq> saved s'"
    proof (cases "x = l")
      case True
      with x(2) ops show ?thesis by (auto simp: sv)
    next
      case False
      with x(1) have "x \<in> saved s" by (simp add: sv)
      with assms(1) x(2) have "set (operands g') \<subseteq> saved s" by (auto simp: good_def)
      then show ?thesis by (auto simp: sv)
    qed
  qed
  from d1 d2 n0 rg cl have "good c s'" unfolding good_def by blast
  then show ?thesis by (simp add: s'_def n_def)
qed

lemma init_fold:
  assumes "\<forall>i\<in>set ls. \<forall>g. get_gate c i = Inr g \<longrightarrow> operands g = []" "good c s"
  shows "good c (fold (\<lambda>input_label s. snd (saved_lit s input_label)) ls s)
     \<and> saved (fold (\<lambda>input_label s. snd (saved_lit s input_label)) ls s) = saved s \<union> set ls
     \<and> clauses_acc (fold (\<lambda>input_label s. snd (saved_lit s input_label)) ls s) = clauses_acc s"
  using assms
proof (induction ls arbitrary: s)
  case Nil
  then show ?case by simp
next
  case (Cons i ls)
  let ?s1 = "snd (saved_lit s i)"
  have s1: "good c ?s1 \<and> saved ?s1 = insert i (saved s) \<and> clauses_acc ?s1 = clauses_acc s"
  proof (cases "i \<in> saved s")
    case True
    with Cons.prems(2) show ?thesis by (auto simp: saved_lit_known)
  next
    case False
    have "good c (s\<lparr>next_lit := next_lit s + 1, saved_lits := saved_lits s @ [(i, next_lit s + 1)]\<rparr>)"
      using Cons.prems(1) by (intro good_add [OF Cons.prems(2) False]) auto
    with False show ?thesis by (auto simp: saved_lit_new saved_def)
  qed
  from Cons.prems(1) have "\<forall>i\<in>set ls. \<forall>g. get_gate c i = Inr g \<longrightarrow> operands g = []" by simp
  from Cons.IH [OF this, of ?s1] s1 show ?case by auto
qed

lemma good_empty: "good c \<lparr>next_lit = 0, saved_lits = [], clauses_acc = []\<rparr>"
  by (simp add: good_def saved_def)

lemma aig_inputs:
  assumes "aig_circuit c rk" "i \<in> set (inputs c)" "get_gate c i = Inr g"
  shows "operands g = []"
proof -
  from assms(1,2) have "map_option gate_type (map_of (gates c) i) = Some INPUT"
    by (auto simp: aig_circuit_def list_all_iff)
  with assms(3) have "gate_type g = INPUT"
    by (auto simp: get_gate_def split: option.splits)
  with aig_circuit_gate(1) [OF assms(1,3)] show ?thesis by (simp add: aig_gate_def)
qed

lemma init_lits_good:
  assumes "aig_circuit c rk"
  shows "good c (init_lits c)" "saved (init_lits c) = set (inputs c)" "clauses_acc (init_lits c) = []"
proof -
  have "\<forall>i\<in>set (inputs c). \<forall>g. get_gate c i = Inr g \<longrightarrow> operands g = []"
    using aig_inputs [OF assms] by blast
  from init_fold [OF this good_empty]
  show "good c (init_lits c)" "saved (init_lits c) = set (inputs c)" "clauses_acc (init_lits c) = []"
    by (simp_all add: init_lits_def saved_def)
qed

lemma process_root_ok:
  assumes aig: "aig_circuit c rk" and r: "r \<in> fst ` set (gates c)" and g: "good c s"
  shows "\<exists>s1 order. process_root c s r = Some (Inr (append_clauses s1 [[lookup (saved_lits s1) r]]))
      \<and> extends c s s1 order \<and> saved s1 = saved s \<union> reach c r"
proof -
  from process_label [OF aig r g, of "[]"] obtain s1 order where
    s1: "process_stack c [(r, False)] s = process_stack c [] s1"
      "extends c s s1 order" "saved s1 = saved s \<union> reach c r"
    by blast
  have e: "process_stack c [] s1 = Some (Inr s1)"
    by (subst process_stack.simps) simp
  have "r \<in> saved s1" using s1(3) by (simp add: reach.root)
  then have "saved_lit s1 r = (lookup (saved_lits s1) r, s1)" by (rule saved_lit_known)
  with s1(1) e have "process_root c s r = Some (Inr (append_clauses s1 [[lookup (saved_lits s1) r]]))"
    by (simp add: process_root_def)
  with s1(2,3) show ?thesis by blast
qed

lemma good_append_clauses: "good c (append_clauses s cs) = good c s"
  by (simp add: good_def append_clauses_def saved_def)

lemma process_roots_ok:
  assumes aig: "aig_circuit c rk"
  shows "set rs \<subseteq> fst ` set (gates c) \<Longrightarrow> good c s \<Longrightarrow>
    \<exists>s' order added. process_roots c s rs = Some (Inr s') \<and> good c s' \<and> distinct order
      \<and> saved_lits s' = saved_lits s @ added \<and> map fst added = order
      \<and> saved s' = saved s \<union> (\<Union>r\<in>set rs. reach c r)
      \<and> mset (clauses_acc s') = mset (clauses_acc s)
           + mset (concat (map (gate_encoding c (saved_lits s')) order))
           + mset (units (saved_lits s') rs)"
proof (induction rs arbitrary: s)
  case Nil
  then show ?case by (simp add: units_def)
next
  case (Cons r rs)
  from Cons.prems(1) have r: "r \<in> fst ` set (gates c)" and rs: "set rs \<subseteq> fst ` set (gates c)"
    by simp_all
  from process_root_ok [OF aig r Cons.prems(2)] obtain s1 o1 where
    s1: "process_root c s r = Some (Inr (append_clauses s1 [[lookup (saved_lits s1) r]]))"
      "extends c s s1 o1" "saved s1 = saved s \<union> reach c r"
    by blast
  let ?s1 = "append_clauses s1 [[lookup (saved_lits s1) r]]"
  have g1: "good c s1" using s1(2) by (rule extends_good)
  then have g1': "good c ?s1" by (simp add: good_append_clauses)
  from s1(2) obtain a1 where a1: "saved_lits s1 = saved_lits s @ a1" "map fst a1 = o1"
    and d1: "distinct o1"
    and c1: "clauses_acc s1 = clauses_acc s @ concat (map (gate_encoding c (saved_lits s1)) o1)"
    by (auto simp: extends_def)
  from Cons.IH [OF rs g1'] obtain s2 o2 a2 where
    s2: "process_roots c ?s1 rs = Some (Inr s2)" "good c s2" "distinct o2"
      "saved_lits s2 = saved_lits ?s1 @ a2" "map fst a2 = o2"
      "saved s2 = saved ?s1 \<union> (\<Union>r\<in>set rs. reach c r)"
      "mset (clauses_acc s2) = mset (clauses_acc ?s1)
           + mset (concat (map (gate_encoding c (saved_lits s2)) o2))
           + mset (units (saved_lits s2) rs)"
    by blast
  have sl: "saved_lits ?s1 = saved_lits s1" "saved ?s1 = saved s1"
    by (simp_all add: append_clauses_def saved_def)
  have l2: "saved_lits s2 = saved_lits s1 @ a2" using s2(4) sl by simp
  have o1s: "set o1 \<subseteq> saved s1" using extends_saved [OF s1(2)] by simp
  have st: "gate_encoding c (saved_lits s2) x = gate_encoding c (saved_lits s1) x" if "x \<in> set o1" for x
    using gate_encoding_stable [OF g1, of x a2] that o1s l2 by auto
  have enc1: "map (gate_encoding c (saved_lits s2)) o1 = map (gate_encoding c (saved_lits s1)) o1"
    by (rule map_cong [OF refl]) (rule st)
  have rin: "r \<in> saved s1" using s1(3) by (simp add: reach.root)
  then have lr: "lookup (saved_lits s2) r = lookup (saved_lits s1) r"
    unfolding l2 by (intro lookup_append_left) (simp add: saved_def)
  have fresh2: "set o2 \<inter> saved s1 = {}"
  proof -
    from s2(2) have "distinct (map fst (saved_lits s2))" by (simp add: good_def)
    then have "set (map fst (saved_lits s1)) \<inter> set (map fst a2) = {}" unfolding l2 by simp
    with s2(5) show ?thesis by (auto simp: saved_def)
  qed
  have d: "distinct (o1 @ o2)" using d1 s2(3) fresh2 o1s by auto
  have pr: "process_roots c s (r # rs) = Some (Inr s2)" using s1(1) s2(1) by simp
  have sl2: "saved_lits s2 = saved_lits s @ (a1 @ a2)" using l2 a1(1) by simp
  have mf: "map fst (a1 @ a2) = o1 @ o2" using a1(2) s2(5) by simp
  have sv: "saved s2 = saved s \<union> (\<Union>r\<in>set (r # rs). reach c r)"
    using s2(6) sl(2) s1(3) by auto
  have ca1: "clauses_acc ?s1 = clauses_acc s @ concat (map (gate_encoding c (saved_lits s2)) o1)
                 @ [[lookup (saved_lits s2) r]]"
    unfolding enc1 lr by (simp add: append_clauses_def c1)
  have ms: "mset (clauses_acc s2) = mset (clauses_acc s)
           + mset (concat (map (gate_encoding c (saved_lits s2)) (o1 @ o2)))
           + mset (units (saved_lits s2) (r # rs))"
    unfolding s2(7) ca1 by (simp add: units_def)
  from pr s2(2) d sl2 mf sv ms show ?case by blast
qed

lemma gate_clauses_spec:
  "aig_gate g \<Longrightarrow> gate_clauses (gate_type g) t (map f (operands g)) = Inr cs \<Longrightarrow>
   map set cs = spec_clauses (gate_type g) t (map f (operands g))"
proof -
  assume wf: "aig_gate g" and b: "gate_clauses (gate_type g) t (map f (operands g)) = Inr cs"
  consider (i) "gate_type g = INPUT" | (t) "gate_type g = ALWAYS_TRUE" | (f) "gate_type g = ALWAYS_FALSE"
    | (n) x where "gate_type g = NOT" "operands g = [x]"
    | (c) x y where "gate_type g = AND" "operands g = [x, y]"
  proof -
    have "gate_type g = INPUT \<or> gate_type g = ALWAYS_TRUE \<or> gate_type g = ALWAYS_FALSE
       \<or> (gate_type g = NOT \<and> length (operands g) = 1) \<or> (gate_type g = AND \<and> length (operands g) = 2)"
    proof (cases "gate_type g = INPUT \<or> gate_type g = ALWAYS_TRUE \<or> gate_type g = ALWAYS_FALSE")
      case True
      then show ?thesis by blast
    next
      case False
      with wf have "(gate_type g = NOT \<and> length (operands g) = 1) \<or> (gate_type g = AND \<and> length (operands g) = 2)"
        by (cases "gate_type g = NOT"; cases "gate_type g = AND") (simp_all add: aig_gate_def)
      then show ?thesis by blast
    qed
    moreover have "\<exists>x. xs = [x]" if "length xs = 1" for xs :: "Label list"
      using that by (cases xs) auto
    moreover have "\<exists>x y. xs = [x, y]" if "length xs = 2" for xs :: "Label list"
      using that by (cases xs; cases "tl xs") auto
    ultimately show ?thesis using that by blast
  qed
  then show ?thesis
  proof cases
    case i
    with b show ?thesis by (auto simp: gate_clauses_def)
  next
    case t
    with b show ?thesis by (auto simp: gate_clauses_def)
  next
    case f
    with b show ?thesis by (auto simp: gate_clauses_def)
  next
    case n
    with b show ?thesis by (auto simp: gate_clauses_def)
  next
    case c
    with b show ?thesis by (auto simp: gate_clauses_def insert_commute)
  qed
qed

lemma gate_encoding_spec:
  assumes "aig_circuit c rk"
  shows "map set (gate_encoding c vm l) = spec_encoding c vm l"
proof (cases "get_gate c l")
  case (Inl e)
  then show ?thesis by (simp add: gate_encoding_def spec_encoding_def)
next
  case (Inr g)
  note ag = aig_circuit_gate(1) [OF assms Inr]
  from gate_clauses_aig [OF ag] obtain cs where
    cs: "gate_clauses (gate_type g) (lookup vm l) (map (lookup vm) (operands g)) = Inr cs" by blast
  from gate_clauses_spec [OF ag cs] cs Inr show ?thesis
    by (simp add: gate_encoding_def spec_encoding_def)
qed

lemma input_spec_encoding:
  assumes "aig_circuit c rk" "i \<in> set (inputs c)"
  shows "spec_encoding c vm i = []"
proof -
  from assms have "map_option gate_type (map_of (gates c) i) = Some INPUT"
    by (auto simp: aig_circuit_def list_all_iff)
  then show ?thesis
    by (auto simp: spec_encoding_def get_gate_def split: option.splits)
qed

lemma concat_all_empty: "(\<And>x. x \<in> set xs \<Longrightarrow> f x = []) \<Longrightarrow> concat (map f xs) = []"
  by (induction xs) auto

text \<open>
  Claim C1. For every AIG circuit \<open>tseytin_transformation\<close> returns a formula whose
  clauses are integers; there is an enumeration \<open>order\<close> of the gates reachable from the
  outputs, each gate once, such that the clauses of the formula, as a multiset of
  literal sets, are the clauses the specification lists for each gate of \<open>order\<close>
  together with one unit clause \<open>[v(r)]\<close> for every output \<open>r\<close>. The labels of the
  variable map are the inputs and the reachable gates, and no two labels share a
  variable.
\<close>

theorem tseytin_encodes:
  assumes "aig_circuit c rk"
  shows "\<exists>f cs order. tseytin_transformation c = Some (Inr f) \<and> cnf_raw f = int_clauses cs
    \<and> distinct order \<and> set order = reachable c
    \<and> mset (map set cs) = mset (concat (map (spec_encoding c (var_map f)) order))
          + mset (map (\<lambda>r. {lookup (var_map f) r}) (outputs c))
    \<and> distinct (map fst (var_map f)) \<and> distinct (map snd (var_map f))
    \<and> fst ` set (var_map f) = set (inputs c) \<union> reachable c"
proof -
  note i = init_lits_good [OF assms]
  have outs: "set (outputs c) \<subseteq> fst ` set (gates c)"
    using assms by (auto simp: aig_circuit_def list_all_iff)
  from process_roots_ok [OF assms outs i(1)] obtain s' emitted added where
    r: "process_roots c (init_lits c) (outputs c) = Some (Inr s')" "good c s'" "distinct emitted"
      "saved_lits s' = saved_lits (init_lits c) @ added" "map fst added = emitted"
      "saved s' = saved (init_lits c) \<union> (\<Union>r\<in>set (outputs c). reach c r)"
      "mset (clauses_acc s') = mset (clauses_acc (init_lits c))
           + mset (concat (map (gate_encoding c (saved_lits s')) emitted))
           + mset (units (saved_lits s') (outputs c))"
    by blast
  define f where "f = \<lparr>cnf_raw = int_clauses (clauses_acc s'), var_map = saved_lits s'\<rparr>"
  have t: "tseytin_transformation c = Some (Inr f)"
    using r(1) by (simp add: tseytin_transformation_def f_def)
  have vm: "var_map f = saved_lits s'" and raw: "cnf_raw f = int_clauses (clauses_acc s')"
    by (simp_all add: f_def)
  have dom: "fst ` set (var_map f) = set (inputs c) \<union> reachable c"
    using r(6) i(2) by (simp add: vm reachable_def saved_def)
  have d: "distinct (map fst (var_map f))" "distinct (map snd (var_map f))"
    using r(2) by (simp_all add: good_def vm)
  have em: "set emitted = reachable c - set (inputs c)"
  proof -
    from d(1) have "set (map fst (saved_lits (init_lits c))) \<inter> set (map fst added) = {}"
      unfolding vm r(4) by simp
    then have a: "set emitted \<inter> set (inputs c) = {}"
      using r(5) i(2) by (auto simp: saved_def)
    have "fst ` set (saved_lits s') = fst ` set (saved_lits (init_lits c)) \<union> set (map fst added)"
      unfolding r(4) by (simp add: image_Un)
    then have "set (inputs c) \<union> reachable c = set (inputs c) \<union> set emitted"
      using dom r(5) i(2) by (simp add: vm saved_def)
    with a show ?thesis by blast
  qed
  have "finite (reachable c \<inter> set (inputs c))" by simp
  from finite_distinct_list [OF this] obtain ri where
    ri: "set ri = reachable c \<inter> set (inputs c)" "distinct ri" by blast
  define order where "order = emitted @ ri"
  have o1: "distinct order" using r(3) ri em by (auto simp: order_def)
  have o2: "set order = reachable c" using ri(1) em by (auto simp: order_def)
  have e0: "concat (map (spec_encoding c (var_map f)) ri) = []"
    using ri(1) input_spec_encoding [OF assms] by (intro concat_all_empty) auto
  have e1: "map set (concat (map (gate_encoding c (saved_lits s')) emitted))
       = concat (map (spec_encoding c (var_map f)) emitted)"
    by (simp add: map_concat comp_def gate_encoding_spec [OF assms] vm)
  have e2: "map set (units (saved_lits s') (outputs c)) = map (\<lambda>r. {lookup (var_map f) r}) (outputs c)"
    by (simp add: units_def vm comp_def)
  have "mset (map set (clauses_acc s')) = image_mset set (mset (clauses_acc s'))" by simp
  also have "\<dots> = mset (map set (concat (map (gate_encoding c (saved_lits s')) emitted)))
       + mset (map set (units (saved_lits s') (outputs c)))"
    unfolding r(7) i(3) by simp
  also have "\<dots> = mset (concat (map (spec_encoding c (var_map f)) order))
          + mset (map (\<lambda>r. {lookup (var_map f) r}) (outputs c))"
    unfolding e1 e2 by (simp add: order_def e0)
  finally have ms: "mset (map set (clauses_acc s')) = mset (concat (map (spec_encoding c (var_map f)) order))
          + mset (map (\<lambda>r. {lookup (var_map f) r}) (outputs c))" .
  from t raw o1 o2 ms d dom show ?thesis by blast
qed

lemma int_clauses_inj: "int_clauses a = int_clauses b \<Longrightarrow> a = b"
proof -
  have "inj (map (map (Some :: Lit \<Rightarrow> Lit option)))" by (intro inj_mapI) simp
  then show "int_clauses a = int_clauses b \<Longrightarrow> a = b"
    by (simp add: int_clauses_def inj_eq)
qed

lemma c1_facts:
  "aig_circuit contradiction_circuit contradiction_rank"
  "tseytin_transformation contradiction_circuit = Some (Inr contradiction_cnf)"
  by code_simp+

text \<open>
  Claim C1 at \<open>contradiction_circuit\<close>, where the input \<open>x\<close> is shared by the gates \<open>n\<close>
  and \<open>a\<close>.
\<close>

theorem tseytin_encodes_witness:
  "aig_circuit contradiction_circuit contradiction_rank
   \<and> tseytin_transformation contradiction_circuit = Some (Inr contradiction_cnf)
   \<and> (\<exists>order. distinct order \<and> set order = reachable contradiction_circuit
        \<and> mset (map set contradiction_clauses)
            = mset (concat (map (spec_encoding contradiction_circuit (var_map contradiction_cnf)) order))
              + mset (map (\<lambda>r. {lookup (var_map contradiction_cnf) r}) (outputs contradiction_circuit)))"
proof -
  from tseytin_encodes [OF c1_facts(1)] obtain f cs order where
    r: "tseytin_transformation contradiction_circuit = Some (Inr f)" "cnf_raw f = int_clauses cs"
      "distinct order" "set order = reachable contradiction_circuit"
      "mset (map set cs) = mset (concat (map (spec_encoding contradiction_circuit (var_map f)) order))
          + mset (map (\<lambda>r. {lookup (var_map f) r}) (outputs contradiction_circuit))"
    by blast
  from r(1) c1_facts(2) have f: "f = contradiction_cnf" by simp
  with r(2) have "int_clauses cs = int_clauses contradiction_clauses"
    by (simp add: contradiction_cnf_def)
  then have "cs = contradiction_clauses" by (rule int_clauses_inj)
  with r(3,4,5) f c1_facts show ?thesis by blast
qed
subsection \<open>Assigning false to an AND gate\<close>

lemma users_remove_user:
  "get_gate_users (remove_user c gl u) l =
     (if l = gl then removeAll u (get_gate_users c l) else get_gate_users c l)"
proof -
  have "map_of (map (\<lambda>(l, us). if l = gl then (l, removeAll u us) else (l, us)) xs) l =
        (if l = gl then map_option (removeAll u) (map_of xs l) else map_of xs l)" for xs
    by (induction xs) auto
  then show ?thesis
    by (auto simp: get_gate_users_def remove_user_def split: option.splits)
qed

lemma get_gate_update:
  "get_gate (c\<lparr>gates := AList.update g x (gates c)\<rparr>) u = (if u = g then Inr x else get_gate c u)"
  by (simp add: get_gate_def update_conv')

lemma get_gate_users_gates [simp]:
  "get_gate_users (c\<lparr>gates := gs\<rparr>) l = get_gate_users c l"
  by (simp add: get_gate_users_def)

lemma get_gate_remove_user [simp]: "get_gate (remove_user c gl u) l = get_gate c l"
  by (simp add: get_gate_def remove_user_def)

text \<open>
  Claim C2. For an AND gate \<open>g\<close> of the circuit with operands \<open>u0\<close>, \<open>u1\<close> (all three with
  a CNF variable), \<open>_assign_and_propagate(g, False)\<close> returns OK, appends the unit clause
  \<open>[-v(g)]\<close> and the binary clause \<open>[-v(u0), -v(u1)]\<close>, replaces \<open>g\<close> by an ALWAYS_FALSE
  gate without operands, removes \<open>g\<close> from the users of both operands, and leaves every
  other gate and \<open>gates_config\<close> as they were: no operand is assigned. \<open>assign(g, False)\<close>
  is this followed by the simplifier on the resulting circuit.
\<close>

theorem assign_and_false:
  assumes "get_gate (circuit s) g = Inr gate" "gate_type gate = AND" "operands gate = [u0, u1]"
    and "idx_of (gates_config s) g = Inr (Some vg)"
    and "idx_of (gates_config s) u0 = Inr (Some v0)" "idx_of (gates_config s) u1 = Inr (Some v1)"
  shows "assign_and_propagate s g False = Inr (OK, and_false_result s g gate vg v0 v1)
     \<and> assign s g False =
         (case RemoveConstantGates (circuit (and_false_result s g gate vg v0 v1)) of
            Inl e \<Rightarrow> Inl e
          | Inr c \<Rightarrow> Inr (OK, (and_false_result s g gate vg v0 v1)\<lparr>circuit := c\<rparr>))
     \<and> cnf_raw (cnf (and_false_result s g gate vg v0 v1)) = cnf_raw (cnf s) @ int_clauses [[- vg], [- v0, - v1]]
     \<and> gates_config (and_false_result s g gate vg v0 v1) = gates_config s
     \<and> get_gate (circuit (and_false_result s g gate vg v0 v1)) g = Inr (mk_gate g ALWAYS_FALSE [])
     \<and> g \<notin> set (get_gate_users (circuit (and_false_result s g gate vg v0 v1)) u0)
     \<and> g \<notin> set (get_gate_users (circuit (and_false_result s g gate vg v0 v1)) u1)
     \<and> (\<forall>u. u \<noteq> g \<longrightarrow>
           get_gate (circuit (and_false_result s g gate vg v0 v1)) u = get_gate (circuit s) u)"
proof -
  let ?r = "and_false_result s g gate vg v0 v1"
  have p: "assign_and_propagate s g False = Inr (OK, ?r)"
    by (subst assign_and_propagate.simps)
       (simp add: assms is_constant_def Let_def replace_by_constant_def and_false_result_def
         remove_user_def negated_def)
  then have a: "assign s g False =
         (case RemoveConstantGates (circuit ?r) of
            Inl e \<Rightarrow> Inl e
          | Inr c \<Rightarrow> Inr (OK, ?r\<lparr>circuit := c\<rparr>))"
    by (simp add: assign_def simplify_def split: sum.splits)
  have c: "cnf_raw (cnf ?r) = cnf_raw (cnf s) @ int_clauses [[- vg], [- v0, - v1]]"
    and gc: "gates_config ?r = gates_config s"
    by (simp_all add: and_false_result_def add_clause_def int_clauses_def)
  have gg: "get_gate (circuit ?r) u = (if u = g then Inr (mk_gate g ALWAYS_FALSE []) else get_gate (circuit s) u)" for u
    by (simp add: and_false_result_def assms(3) get_gate_def update_conv' remove_user_def)
  have us: "g \<notin> set (get_gate_users (circuit ?r) u0)" "g \<notin> set (get_gate_users (circuit ?r) u1)"
    by (simp_all add: and_false_result_def assms(3) users_remove_user)
  from p a c gc gg us show ?thesis by simp
qed

lemma c2_facts:
  "get_gate (circuit contradiction_instance) ''a'' = Inr (mk_gate ''a'' AND [''x'', ''n''])"
  "gate_type (mk_gate ''a'' AND [''x'', ''n'']) = AND"
  "operands (mk_gate ''a'' AND [''x'', ''n'']) = [''x'', ''n'']"
  "idx_of (gates_config contradiction_instance) ''a'' = Inr (Some 4)"
  "idx_of (gates_config contradiction_instance) ''x'' = Inr (Some 1)"
  "idx_of (gates_config contradiction_instance) ''n'' = Inr (Some 3)"
  by code_simp+

text \<open>Claim C2 at the gate \<open>a = AND(x, n)\<close> of \<open>contradiction_instance\<close>.\<close>

theorem assign_and_false_witness:
  "get_gate (circuit contradiction_instance) ''a'' = Inr (mk_gate ''a'' AND [''x'', ''n''])
   \<and> idx_of (gates_config contradiction_instance) ''a'' = Inr (Some 4)
   \<and> idx_of (gates_config contradiction_instance) ''x'' = Inr (Some 1)
   \<and> idx_of (gates_config contradiction_instance) ''n'' = Inr (Some 3)
   \<and> assign_and_propagate contradiction_instance ''a'' False =
       Inr (OK, and_false_result contradiction_instance ''a'' (mk_gate ''a'' AND [''x'', ''n'']) 4 1 3)
   \<and> cnf_raw (cnf (and_false_result contradiction_instance ''a'' (mk_gate ''a'' AND [''x'', ''n'']) 4 1 3))
       = cnf_raw (cnf contradiction_instance) @ int_clauses [[- 4], [- 1, - 3]]"
  using assign_and_false [OF c2_facts] c2_facts by simp

subsection \<open>Assignment keeps the variable numbering\<close>

lemma numbering_kept_refl: "numbering_kept s s"
  by (simp add: numbering_kept_def)

lemma numbering_kept_trans:
  "numbering_kept s s1 \<Longrightarrow> numbering_kept s1 s2 \<Longrightarrow> numbering_kept s s2"
  by (auto simp: numbering_kept_def)

lemma set_value_idx:
  "map (\<lambda>p. (fst p, idx (snd p))) (set_value gc l v) = map (\<lambda>p. (fst p, idx (snd p))) gc"
  by (induction gc) (auto simp: set_value_def)

lemma numbering_kept_clause:
  "numbering_kept s (s\<lparr>cnf := add_clause (cnf s) cl\<rparr>)"
  by (simp add: numbering_kept_def add_clause_def)

lemma numbering_kept_replace:
  "numbering_kept s (replace_by_constant s gate l v)"
  by (simp add: numbering_kept_def replace_by_constant_def Let_def)

lemma numbering_kept_input:
  "numbering_kept s (s\<lparr>circuit := c, gates_config := set_value (gates_config s) l v\<rparr>)"
  by (simp add: numbering_kept_def set_value_idx)

lemma propagate_numbering_kept:
  "assign_and_propagate s l v = Inr (st, s') \<Longrightarrow> numbering_kept s s'"
  "assign_operands s ops = Inr (st, s') \<Longrightarrow> numbering_kept s s'"
proof (induction s l v and s ops arbitrary: st s' and st s'
       rule: assign_and_propagate_assign_operands.induct)
  case (1 s l v)
  from "1.prems" obtain gate where g: "get_gate (circuit s) l = Inr gate"
    by (auto split: sum.splits)
  show ?case
  proof (cases "is_constant (gate_type gate)")
    case True
    with "1.prems" g show ?thesis
      by (auto simp: numbering_kept_refl split: if_splits)
  next
    case nc: False
    from "1.prems" g nc obtain lit where lit: "idx_of (gates_config s) l = Inr lit"
      by (auto split: sum.splits)
    from "1.prems" g nc lit obtain unit_lit where
      ul: "(if v then Inr lit else negated lit) = Inr unit_lit"
      by (auto split: sum.splits)
    let ?s1 = "s\<lparr>cnf := add_clause (cnf s) [unit_lit]\<rparr>"
    let ?s2 = "replace_by_constant ?s1 gate l v"
    have k1: "numbering_kept s ?s1" by (rule numbering_kept_clause)
    have k2: "numbering_kept s ?s2"
      using numbering_kept_trans [OF k1 numbering_kept_replace] .
    note ih1 = "1.IH"(1) [OF g nc lit ul refl _ refl]
    note ih2 = "1.IH"(2) [OF g nc lit ul refl _ refl]
    show ?thesis
    proof (cases "gate_type gate = INPUT")
      case True
      with "1.prems" g nc lit ul obtain c where
        "s' = ?s1\<lparr>circuit := c, gates_config := set_value (gates_config ?s1) l v\<rparr>"
        by (auto simp: Let_def split: sum.splits)
      then show ?thesis
        using numbering_kept_trans [OF k1 numbering_kept_input] by simp
    next
      case ni: False
      show ?thesis
      proof (cases "gate_type gate = NOT")
        case True
        with "1.prems" g nc lit ul ni obtain op0 rest where
          ops: "operands gate = op0 # rest" and
          r: "assign_and_propagate ?s2 op0 (\<not> v) = Inr (st, s')"
          by (auto simp: Let_def split: list.splits)
        from ih1 [OF ni True ops r] k2 show ?thesis by (rule numbering_kept_trans [rotated])
      next
        case nn: False
        show ?thesis
        proof (cases "gate_type gate = AND \<and> v")
          case True
          with "1.prems" g nc lit ul ni nn have
            r: "assign_operands ?s2 (operands gate) = Inr (st, s')"
            by (auto simp: Let_def)
          from ih2 [OF ni nn True r] k2 show ?thesis by (rule numbering_kept_trans [rotated])
        next
          case False
          with "1.prems" g nc lit ul ni nn obtain cl where "s' = ?s2\<lparr>cnf := add_clause (cnf ?s2) cl\<rparr>"
            by (auto simp: Let_def split: sum.splits if_splits)
          then show ?thesis
            using numbering_kept_trans [OF k2 numbering_kept_clause] by simp
        qed
      qed
    qed
  qed
next
  case (2 s)
  then show ?case by (simp add: numbering_kept_refl)
next
  case (3 s operand_label rest)
  from "3.prems" have
    "(\<exists>s1. assign_and_propagate s operand_label True = Inr (OK, s1)
         \<and> assign_operands s1 rest = Inr (st, s'))
       \<or> assign_and_propagate s operand_label True = Inr (st, s')"
    by (auto split: sum.splits if_splits)
  then show ?case
  proof
    assume "\<exists>s1. assign_and_propagate s operand_label True = Inr (OK, s1)
         \<and> assign_operands s1 rest = Inr (st, s')"
    then obtain s1 where a: "assign_and_propagate s operand_label True = Inr (OK, s1)"
      and b: "assign_operands s1 rest = Inr (st, s')" by blast
    from "3.IH"(1) [OF a] "3.IH"(2) [OF a _ _ b]
    show ?thesis by (auto intro: numbering_kept_trans)
  next
    assume "assign_and_propagate s operand_label True = Inr (st, s')"
    then show ?thesis by (rule "3.IH"(1))
  qed
qed

lemma simplify_numbering_kept: "simplify s = Inr s' \<Longrightarrow> numbering_kept s s'"
  by (auto simp: simplify_def numbering_kept_def split: sum.splits)

text \<open>
  Claim C3. For every instance and every call \<open>assign(label, value)\<close> that returns a
  status, OK or CONFLICT, the label-to-variable map of the CNF is unchanged,
  \<open>gates_config\<close> holds the same labels with the same \<open>idx\<close>, and the clause list has only
  grown at its end. This covers a gate without CNF variable assigned true, where the
  call appends the clause \<open>[None]\<close> and returns.
\<close>

theorem assign_keeps_numbering:
  assumes "assign s l v = Inr (st, s')"
  shows "var_map (cnf s') = var_map (cnf s)
     \<and> map (\<lambda>p. (fst p, idx (snd p))) (gates_config s') = map (\<lambda>p. (fst p, idx (snd p))) (gates_config s)
     \<and> (\<exists>cs. cnf_raw (cnf s') = cnf_raw (cnf s) @ cs)"
proof -
  from assms obtain st1 s1 where p: "assign_and_propagate s l v = Inr (st1, s1)"
    by (auto simp: assign_def split: sum.splits)
  have "numbering_kept s s'"
  proof (cases "st1 = OK")
    case True
    with assms p have "simplify s1 = Inr s'"
      by (auto simp: assign_def split: sum.splits)
    from numbering_kept_trans [OF propagate_numbering_kept(1) [OF p] simplify_numbering_kept [OF this]]
    show ?thesis .
  next
    case False
    with assms p have "s' = s1" by (auto simp: assign_def)
    with propagate_numbering_kept(1) [OF p] show ?thesis by simp
  qed
  then show ?thesis by (simp add: numbering_kept_def)
qed

lemma c3_fact:
  "assign contradiction_instance ''a'' True = Inr (CONFLICT, conflicting_instance)"
  by code_simp

lemma unnumbered_idx:
  "idx_of (gates_config unnumbered_instance) ''h'' = Inr None"
  by code_simp

lemma unnumbered_assign_true:
  "assign unnumbered_instance ''h'' True = Inr (OK, unnumbered_assigned)"
  by code_simp

lemma unnumbered_assign_false:
  "assign unnumbered_instance ''h'' False = Inl TypeError"
  by code_simp

text \<open>
  Claim C3 at two calls: \<open>assign(h, True)\<close> on \<open>unnumbered_instance\<close>, where \<open>h\<close> has no
  CNF variable and the call returns OK, and \<open>assign(a, True)\<close> on
  \<open>contradiction_instance\<close>, which returns CONFLICT.
\<close>

theorem assign_keeps_numbering_witness:
  "assign unnumbered_instance ''h'' True = Inr (OK, unnumbered_assigned)
   \<and> idx_of (gates_config unnumbered_instance) ''h'' = Inr None
   \<and> var_map (cnf unnumbered_assigned) = var_map (cnf unnumbered_instance)
   \<and> map (\<lambda>p. (fst p, idx (snd p))) (gates_config unnumbered_assigned)
       = map (\<lambda>p. (fst p, idx (snd p))) (gates_config unnumbered_instance)
   \<and> (\<exists>cs. cnf_raw (cnf unnumbered_assigned) = cnf_raw (cnf unnumbered_instance) @ cs)
   \<and> assign contradiction_instance ''a'' True = Inr (CONFLICT, conflicting_instance)
   \<and> var_map (cnf conflicting_instance) = var_map (cnf contradiction_instance)
   \<and> map (\<lambda>p. (fst p, idx (snd p))) (gates_config conflicting_instance)
       = map (\<lambda>p. (fst p, idx (snd p))) (gates_config contradiction_instance)
   \<and> (\<exists>cs. cnf_raw (cnf conflicting_instance) = cnf_raw (cnf contradiction_instance) @ cs)"
  using assign_keeps_numbering [OF unnumbered_assign_true] assign_keeps_numbering [OF c3_fact]
    unnumbered_assign_true unnumbered_idx c3_fact
  by simp
subsection \<open>Deep copies\<close>

lemma kept_refl: "separate n h \<Longrightarrow> kept n h h"
  by (simp add: kept_def)

lemma kept_trans: "kept n h h1 \<Longrightarrow> kept n h1 h2 \<Longrightarrow> kept n h h2"
  by (simp add: kept_def)

lemma kept_separate: "kept n h h' \<Longrightarrow> separate n h'"
  by (simp add: kept_def)

lemma kept_write:
  assumes "separate n h" "n \<le> x" "\<forall>r\<in>set (refs c). n \<le> r"
  shows "kept n h (h[x := c])"
proof -
  have "take n (h[x := c]) = take n h" using assms(2) by simp
  moreover have "separate n (h[x := c])"
    unfolding separate_def
  proof (intro conjI allI impI)
    show "n \<le> length (h[x := c])" using assms(1) by (simp add: separate_def)
  next
    fix y assume y: "n \<le> y \<and> y < length (h[x := c])"
    show "\<forall>r\<in>set (refs (h[x := c] ! y)). n \<le> r"
    proof (cases "y = x")
      case True
      with y assms(3) show ?thesis by simp
    next
      case False
      with y assms(1) show ?thesis by (simp add: separate_def)
    qed
  qed
  ultimately show ?thesis by (simp add: kept_def)
qed

lemma kept_alloc:
  assumes "separate n h" "\<forall>r\<in>set (refs c). n \<le> r"
  shows "kept n h (h @ [c])"
proof -
  from assms(1) have nl: "n \<le> length h" by (simp add: separate_def)
  then have "take n (h @ [c]) = take n h" by simp
  moreover have "separate n (h @ [c])"
    unfolding separate_def
  proof (intro conjI allI impI)
    show "n \<le> length (h @ [c])" using nl by simp
  next
    fix y assume y: "n \<le> y \<and> y < length (h @ [c])"
    show "\<forall>r\<in>set (refs ((h @ [c]) ! y)). n \<le> r"
    proof (cases "y < length h")
      case True
      with y assms(1) show ?thesis by (simp add: separate_def nth_append)
    next
      case False
      with y have "y = length h" by simp
      with assms(2) show ?thesis by simp
    qed
  qed
  ultimately show ?thesis by (simp add: kept_def)
qed

lemma separate_refs:
  "separate n h \<Longrightarrow> n \<le> x \<Longrightarrow> cell_at h x = Some c \<Longrightarrow> r \<in> set (refs c) \<Longrightarrow> n \<le> r"
  by (auto simp: separate_def cell_at_def split: if_splits)

lemma attrs_separate:
  assumes "separate n h" "n \<le> a" "attrs_of h a = Some (rc, rf, rd)"
  shows "n \<le> rc" "n \<le> rf" "n \<le> rd"
proof -
  from assms(3) have c: "cell_at h a = Some (InstanceObj rc rf rd)"
    by (auto simp: attrs_of_def split: option.splits cell.splits)
  from separate_refs [OF assms(1,2) c] show "n \<le> rc" "n \<le> rf" "n \<le> rd" by simp_all
qed

lemma circuit_separate:
  assumes "separate n h" "n \<le> a" "circuit_of h a = Some (rc, c)"
  shows "n \<le> rc"
proof -
  from assms(3) obtain rf rd where "attrs_of h a = Some (rc, rf, rd)"
    by (auto simp: circuit_of_def split: option.splits cell.splits)
  from attrs_separate(1) [OF assms(1,2) this] show ?thesis .
qed

lemma clause_list_separate:
  assumes "separate n h" "n \<le> a" "clause_list_of h a = Some (rl, cs)"
  shows "n \<le> rl"
proof -
  from assms(3) obtain rc rf rd rv where
    a: "attrs_of h a = Some (rc, rf, rd)" and f: "cell_at h rf = Some (CnfObj rl rv)"
    by (auto simp: clause_list_of_def split: option.splits cell.splits)
  from attrs_separate(2) [OF assms(1,2) a] have "n \<le> rf" .
  from separate_refs [OF assms(1) this f] show ?thesis by simp
qed

lemma config_separate:
  assumes "separate n h" "n \<le> a" "config_of h a l = Some (Inr (x, g))"
  shows "n \<le> x"
proof -
  from assms(3) obtain rc rf rd d where
    a: "attrs_of h a = Some (rc, rf, rd)" and f: "cell_at h rd = Some (ConfigDictObj d)"
    and m: "map_of d l = Some x"
    by (auto simp: config_of_def split: option.splits cell.splits)
  from attrs_separate(3) [OF assms(1,2) a] have "n \<le> rd" .
  moreover from m have "x \<in> set (map snd d)"
    by (auto dest!: map_of_SomeD intro: rev_image_eqI)
  ultimately show ?thesis using separate_refs [OF assms(1) _ f, of x] by simp
qed

lemma store_add_clause_kept:
  assumes "separate n h" "n \<le> a" "final_heap (store_add_clause h a cl) = Some h'"
  shows "kept n h h'"
proof -
  from assms(3) obtain rl cs where
    c: "clause_list_of h a = Some (rl, cs)" and h': "h' = h[rl := ClauseListObj (cs @ [cl])]"
    by (auto simp: store_add_clause_def split: option.splits)
  from kept_write [OF assms(1) clause_list_separate [OF assms(1,2) c], of "ClauseListObj (cs @ [cl])"]
  show ?thesis by (simp add: h')
qed

lemma store_idx_final: "final_heap (store_idx h a l) = Some h' \<Longrightarrow> h' = h"
  by (auto simp: store_idx_def split: option.splits sum.splits)

lemma unit_clause_kept:
  assumes "separate n h" "n \<le> a" "final_heap (unit_clause h a l v) = Some h'"
  shows "kept n h h'"
proof (cases "store_idx h a l")
  case (Returned lit h1)
  then have h1: "h1 = h" using store_idx_final [of h a l h1] by simp
  show ?thesis
  proof (cases "if v then Inr lit else negated lit")
    case (Inl e)
    with assms(3) Returned h1 have "h' = h" by (simp add: unit_clause_def)
    with kept_refl [OF assms(1)] show ?thesis by simp
  next
    case (Inr unit_lit)
    with assms(3) Returned h1 have "final_heap (store_add_clause h a [unit_lit]) = Some h'"
      by (simp add: unit_clause_def)
    from store_add_clause_kept [OF assms(1,2) this] show ?thesis .
  qed
next
  case (Raised e h1)
  then have "h1 = h" using store_idx_final [of h a l h1] by simp
  with assms(3) Raised have "h' = h" by (simp add: unit_clause_def)
  with kept_refl [OF assms(1)] show ?thesis by simp
next
  case Dangling
  with assms(3) show ?thesis by (simp add: unit_clause_def)
qed

lemma binary_clause_kept:
  assumes "separate n h" "n \<le> a" "final_heap (binary_clause h a gate) = Some h'"
  shows "kept n h h'"
proof -
  have i: "h' = h" if "store_idx h a k = Raised e h'" for k e
    using that store_idx_final [of h a k h'] by simp
  from assms(3) have "h' = h \<or> (\<exists>cl x. store_add_clause h a cl = Returned x h')
      \<or> (\<exists>cl e. store_add_clause h a cl = Raised e h')"
    by (auto simp: binary_clause_def split: if_splits outcome.splits sum.splits dest: i)
  then have "h' = h \<or> (\<exists>cl. final_heap (store_add_clause h a cl) = Some h')"
    by (metis final_heap.simps(1,2))
  then show ?thesis
    using kept_refl [OF assms(1)] store_add_clause_kept [OF assms(1,2)] by auto
qed

lemma store_replace_by_constant_kept:
  assumes "separate n h" "n \<le> a" "final_heap (store_replace_by_constant h a gate l v) = Some h'"
  shows "kept n h h'"
proof -
  from assms(3) obtain rc c where
    c: "circuit_of h a = Some (rc, c)" and h': "h' = h[rc := CircuitObj (constant_in_place c gate l v)]"
    by (auto simp: store_replace_by_constant_def split: option.splits)
  from kept_write [OF assms(1) circuit_separate [OF assms(1,2) c], of "CircuitObj (constant_in_place c gate l v)"]
  show ?thesis by (simp add: h')
qed

lemma assign_input_kept:
  assumes "separate n h" "n \<le> a" "final_heap (assign_input h a l v) = Some h'"
  shows "kept n h h'"
proof -
  from assms(3) obtain rc c where c: "circuit_of h a = Some (rc, c)"
    by (auto simp: assign_input_def split: option.splits)
  show ?thesis
  proof (cases "replace_inputs c (if v then [l] else []) (if v then [] else [l])")
    case (Inl e)
    with assms(3) c have "h' = h" by (simp add: assign_input_def)
    with kept_refl [OF assms(1)] show ?thesis by simp
  next
    case (Inr c')
    let ?h1 = "h[rc := CircuitObj c']"
    have k1: "kept n h ?h1"
      using kept_write [OF assms(1) circuit_separate [OF assms(1,2) c], of "CircuitObj c'"] by simp
    from assms(3) c Inr have
      "h' = ?h1 \<or> (\<exists>x g. config_of ?h1 a l = Some (Inr (x, g))
                      \<and> h' = ?h1[x := GateConfigObj (g\<lparr>gc_value := Some v\<rparr>)])"
      by (auto simp: assign_input_def Let_def split: option.splits sum.splits)
    then show ?thesis
    proof
      assume "h' = ?h1" with k1 show ?thesis by simp
    next
      assume "\<exists>x g. config_of ?h1 a l = Some (Inr (x, g))
                      \<and> h' = ?h1[x := GateConfigObj (g\<lparr>gc_value := Some v\<rparr>)]"
      then obtain x g where x: "config_of ?h1 a l = Some (Inr (x, g))"
        and h': "h' = ?h1[x := GateConfigObj (g\<lparr>gc_value := Some v\<rparr>)]" by blast
      from kept_write [OF kept_separate [OF k1] config_separate [OF kept_separate [OF k1] assms(2) x],
          of "GateConfigObj (g\<lparr>gc_value := Some v\<rparr>)"]
      have "kept n ?h1 h'" by (simp add: h')
      with k1 show ?thesis by (rule kept_trans)
    qed
  qed
qed

lemma store_simplify_kept:
  assumes "separate n h" "n \<le> a" "final_heap (store_simplify h a) = Some h'"
  shows "kept n h h'"
proof -
  from assms(3) obtain rc c where c: "circuit_of h a = Some (rc, c)"
    by (auto simp: store_simplify_def split: option.splits)
  show ?thesis
  proof (cases "RemoveConstantGates c")
    case (Inl e)
    with assms(3) c have "h' = h" by (simp add: store_simplify_def)
    with kept_refl [OF assms(1)] show ?thesis by simp
  next
    case (Inr c')
    with assms(3) c obtain rc0 rf rd where
      a: "attrs_of h a = Some (rc0, rf, rd)"
      and h': "h' = (h @ [CircuitObj c'])[a := InstanceObj (length h) rf rd]"
      by (auto simp: store_simplify_def alloc_def split: option.splits)
    have k1: "kept n h (h @ [CircuitObj c'])"
      using kept_alloc [OF assms(1), of "CircuitObj c'"] by simp
    from assms(1) have "n \<le> length h" by (simp add: separate_def)
    with attrs_separate(2,3) [OF assms(1,2) a]
    have "\<forall>r\<in>set (refs (InstanceObj (length h) rf rd)). n \<le> r" by simp
    from kept_write [OF kept_separate [OF k1] assms(2) this]
    have "kept n (h @ [CircuitObj c']) h'" by (simp add: h')
    with k1 show ?thesis by (rule kept_trans)
  qed
qed

lemma store_propagate_kept:
  "separate n h \<Longrightarrow> n \<le> a \<Longrightarrow> final_heap (store_assign_and_propagate h a l v) = Some h' \<Longrightarrow>
     kept n h h'"
  "separate n h \<Longrightarrow> n \<le> a \<Longrightarrow> final_heap (store_assign_operands h a ops) = Some h' \<Longrightarrow>
     kept n h h'"
proof (induction h a l v and h a ops arbitrary: h' and h'
       rule: store_assign_and_propagate_store_assign_operands.induct)
  case (1 h a l v)
  note sep = "1.prems"(1) and na = "1.prems"(2) and fin = "1.prems"(3)
  from fin obtain rc c where c: "circuit_of h a = Some (rc, c)"
    by (auto split: option.splits)
  show ?case
  proof (cases "get_gate c l")
    case (Inl e)
    with fin c have "h' = h" by simp
    with kept_refl [OF sep] show ?thesis by simp
  next
    case g: (Inr gate)
    show ?thesis
    proof (cases "is_constant (gate_type gate)")
      case True
      with fin c g have "h' = h" by (auto split: if_splits)
      with kept_refl [OF sep] show ?thesis by simp
    next
      case nc: False
      show ?thesis
      proof (cases "unit_clause h a l v")
        case Dangling
        with fin c g nc show ?thesis by simp
      next
        case (Raised e h1)
        with fin c g nc have "h' = h1" by simp
        with unit_clause_kept [OF sep na, of l v h1] Raised show ?thesis by simp
      next
        case u: (Returned u h1)
        have k1: "kept n h h1" using unit_clause_kept [OF sep na, of l v h1] u by simp
        note s1 = kept_separate [OF k1]
        show ?thesis
        proof (cases "gate_type gate = INPUT")
          case True
          with fin c g nc u have "final_heap (assign_input h1 a l v) = Some h'" by simp
          from kept_trans [OF k1 assign_input_kept [OF s1 na this]] show ?thesis .
        next
          case ni: False
          show ?thesis
          proof (cases "store_replace_by_constant h1 a gate l v")
            case Dangling
            with fin c g nc u ni show ?thesis by simp
          next
            case (Raised e h2)
            with fin c g nc u ni have "h' = h2" by simp
            with store_replace_by_constant_kept [OF s1 na, of gate l v h2] Raised k1
            show ?thesis by (auto intro: kept_trans)
          next
            case r: (Returned u2 h2)
            have k2: "kept n h h2"
              using store_replace_by_constant_kept [OF s1 na, of gate l v h2] r k1
              by (auto intro: kept_trans)
            note s2 = kept_separate [OF k2]
            note ih1 = "1.IH"(1) [OF c refl g nc u ni r]
            note ih2 = "1.IH"(2) [OF c refl g nc u ni r]
            show ?thesis
            proof (cases "gate_type gate = NOT")
              case True
              show ?thesis
              proof (cases "operands gate")
                case Nil
                with fin c g nc u ni r True have "h' = h2" by simp
                with k2 show ?thesis by simp
              next
                case (Cons op0 rest)
                with fin c g nc u ni r True have
                  "final_heap (store_assign_and_propagate h2 a op0 (\<not> v)) = Some h'" by simp
                from kept_trans [OF k2 ih1 [OF True Cons s2 na this]] show ?thesis .
              qed
            next
              case nn: False
              show ?thesis
              proof (cases "gate_type gate = AND \<and> v")
                case True
                with fin c g nc u ni r nn have
                  "final_heap (store_assign_operands h2 a (operands gate)) = Some h'" by simp
                from kept_trans [OF k2 ih2 [OF nn True s2 na this]] show ?thesis .
              next
                case False
                with fin c g nc u ni r nn have
                  "h' = h2 \<or> final_heap (binary_clause h2 a gate) = Some h'"
                  by (auto split: if_splits)
                then show ?thesis
                  using k2 binary_clause_kept [OF s2 na, of gate h'] by (auto intro: kept_trans)
              qed
            qed
          qed
        qed
      qed
    qed
  qed
next
  case (2 h a)
  then show ?case by (simp add: kept_refl)
next
  case (3 h a operand_label rest)
  note sep = "3.prems"(1) and na = "3.prems"(2) and fin = "3.prems"(3)
  show ?case
  proof (cases "store_assign_and_propagate h a operand_label True")
    case Dangling
    with fin show ?thesis by simp
  next
    case (Raised e h1)
    with fin have "h' = h1" by simp
    with "3.IH"(1) [OF sep na, of h1] Raised show ?thesis by simp
  next
    case r: (Returned status h1)
    have k1: "kept n h h1" using "3.IH"(1) [OF sep na, of h1] r by simp
    show ?thesis
    proof (cases "status = OK")
      case True
      with fin r have "final_heap (store_assign_operands h1 a rest) = Some h'" by simp
      from kept_trans [OF k1 "3.IH"(2) [OF r _ kept_separate [OF k1] na this]] True
      show ?thesis by simp
    next
      case False
      with fin r have "h' = h1" by simp
      with k1 show ?thesis by simp
    qed
  qed
qed

lemma store_assign_kept:
  assumes "separate n h" "n \<le> a" "final_heap (store_assign h a l v) = Some h'"
  shows "kept n h h'"
proof (cases "store_assign_and_propagate h a l v")
  case Dangling
  with assms(3) show ?thesis by (simp add: store_assign_def)
next
  case (Raised e h1)
  with assms(3) have "h' = h1" by (simp add: store_assign_def)
  with store_propagate_kept(1) [OF assms(1,2), of l v h1] Raised show ?thesis by simp
next
  case r: (Returned status h1)
  have k1: "kept n h h1" using store_propagate_kept(1) [OF assms(1,2), of l v h1] r by simp
  show ?thesis
  proof (cases "status = OK")
    case True
    with assms(3) r have "final_heap (store_simplify h1 a) = Some h'"
      by (auto simp: store_assign_def split: outcome.splits)
    from kept_trans [OF k1 store_simplify_kept [OF kept_separate [OF k1] assms(2) this]]
    show ?thesis .
  next
    case False
    with assms(3) r have "h' = h1" by (simp add: store_assign_def)
    with k1 show ?thesis by simp
  qed
qed

lemma store_assigns_kept:
  "separate n h \<Longrightarrow> n \<le> a \<Longrightarrow> final_heap (store_assigns h a calls) = Some h' \<Longrightarrow> kept n h h'"
proof (induction calls arbitrary: h)
  case Nil
  then show ?case by (simp add: kept_refl)
next
  case (Cons call calls)
  obtain l v where call: "call = (l, v)" by (cases call)
  show ?case
  proof (cases "store_assign h a l v")
    case Dangling
    with Cons.prems(3) call show ?thesis by simp
  next
    case (Raised e h1)
    with Cons.prems(3) call have "h' = h1" by simp
    with store_assign_kept [OF Cons.prems(1,2), of l v h1] Raised show ?thesis by simp
  next
    case r: (Returned status h1)
    have k1: "kept n h h1" using store_assign_kept [OF Cons.prems(1,2), of l v h1] r by simp
    from Cons.prems(3) call r have "final_heap (store_assigns h1 a calls) = Some h'"
      by (auto split: outcome.splits)
    from kept_trans [OF k1 Cons.IH [OF kept_separate [OF k1] Cons.prems(2) this]]
    show ?thesis .
  qed
qed

text \<open>The copy holds what the original holds.\<close>

lemma configs_at_stored:
  "length pre = m \<Longrightarrow>
   configs_at (pre @ map (\<lambda>p. GateConfigObj (snd p)) gc @ post)
     (zip (map fst gc) [m ..< m + length gc]) = Some gc"
proof (induction gc arbitrary: pre m)
  case Nil
  then show ?case by simp
next
  case (Cons p gc)
  have u: "[m ..< m + length (p # gc)] = m # [Suc m ..< Suc m + length gc]"
    by (subst upt_rec) simp
  have c: "cell_at (pre @ map (\<lambda>p. GateConfigObj (snd p)) (p # gc) @ post) m
             = Some (GateConfigObj (snd p))"
    using Cons.prems by (simp add: cell_at_def nth_append)
  have "length (pre @ [GateConfigObj (snd p)]) = Suc m" using Cons.prems by simp
  from Cons.IH [OF this] have
    r: "configs_at (pre @ map (\<lambda>p. GateConfigObj (snd p)) (p # gc) @ post)
          (zip (map fst gc) [Suc m ..< Suc m + length gc]) = Some gc"
    by simp
  show ?case unfolding u using c r by simp
qed

lemma store_instance_read:
  assumes "store_instance h s = (b, h1)"
  shows "read_instance h1 b = Some s"
proof -
  define n where "n = length h"
  define gc where "gc = gates_config s"
  define k where "k = length gc"
  define first_cells where "first_cells =
     h @ [CircuitObj (circuit s), ClauseListObj (cnf_raw (cnf s)), VarMapObj (var_map (cnf s)),
          CnfObj (n + 1) (n + 2)]"
  define last_cells where "last_cells =
     [ConfigDictObj (zip (map fst gc) [n + 4 ..< n + 4 + k]), InstanceObj n (n + 3) (n + 4 + k)]"
  from assms have h1: "h1 = first_cells @ map (\<lambda>p. GateConfigObj (snd p)) gc @ last_cells"
    and b: "b = n + k + 5"
    by (simp_all add: store_instance_def Let_def first_cells_def last_cells_def n_def gc_def k_def)
  have lf: "length first_cells = n + 4" by (simp add: first_cells_def n_def)
  have lg: "length (map (\<lambda>p. GateConfigObj (snd p)) gc) = k" by (simp add: k_def)
  have fr: "cell_at h1 x = Some (first_cells ! x)" if "x < n + 4" for x
    using that lf by (simp add: h1 cell_at_def nth_append)
  have c0: "cell_at h1 n = Some (CircuitObj (circuit s))"
    using fr [of n] by (simp add: first_cells_def n_def nth_append)
  have c1: "cell_at h1 (n + 1) = Some (ClauseListObj (cnf_raw (cnf s)))"
    using fr [of "n + 1"] by (simp add: first_cells_def n_def nth_append)
  have c2: "cell_at h1 (n + 2) = Some (VarMapObj (var_map (cnf s)))"
    using fr [of "n + 2"] by (simp add: first_cells_def n_def nth_append)
  have c3: "cell_at h1 (n + 3) = Some (CnfObj (n + 1) (n + 2))"
    using fr [of "n + 3"] by (simp add: first_cells_def n_def nth_append)
  have bk: "cell_at h1 (n + 4 + k + i) = Some (last_cells ! i)" if "i < 2" for i
    using that lf lg by (simp add: h1 cell_at_def nth_append last_cells_def)
  have c4: "cell_at h1 (n + 4 + k) = Some (ConfigDictObj (zip (map fst gc) [n + 4 ..< n + 4 + k]))"
    using bk [of 0] by (simp add: last_cells_def)
  have "n + 4 + k + 1 = b" by (simp add: b)
  with bk [of 1] have c5: "cell_at h1 b = Some (InstanceObj n (n + 3) (n + 4 + k))"
    by (simp add: last_cells_def)
  have cf: "configs_at h1 (zip (map fst gc) [n + 4 ..< n + 4 + k]) = Some gc"
    unfolding h1 k_def by (rule configs_at_stored [OF lf])
  have "cnf_at h1 (n + 3) = Some (cnf s)"
    using c1 c2 c3 by (simp add: cnf_at_def)
  moreover have "config_dict_at h1 (n + 4 + k) = Some (gates_config s)"
    using c4 cf by (simp add: config_dict_at_def gc_def)
  ultimately show ?thesis
    using c0 c5 by (simp add: read_instance_def attrs_of_def)
qed

lemma deepcopy_reads_same:
  "deepcopy h a = Some (b, h1) \<Longrightarrow> read_instance h1 b = read_instance h a"
  by (auto simp: deepcopy_def store_instance_read split: option.splits)

lemma outline_at_cases:
  "outline_at h x = Some (InstanceObj rc rf rd) \<Longrightarrow> cell_at h x = Some (InstanceObj rc rf rd)"
  "outline_at h x = Some (CnfObj rl rv) \<Longrightarrow> cell_at h x = Some (CnfObj rl rv)"
  "outline_at h x = Some (ConfigDictObj d) \<Longrightarrow> cell_at h x = Some (ConfigDictObj d)"
  "outline_at h x = Some (CircuitObj empty_circuit) \<Longrightarrow> \<exists>c. cell_at h x = Some (CircuitObj c)"
  "outline_at h x = Some (ClauseListObj []) \<Longrightarrow> \<exists>cs. cell_at h x = Some (ClauseListObj cs)"
  "outline_at h x = Some (VarMapObj []) \<Longrightarrow> \<exists>vm. cell_at h x = Some (VarMapObj vm)"
  "outline_at h x = Some (GateConfigObj blank_config) \<Longrightarrow> \<exists>g. cell_at h x = Some (GateConfigObj g)"
proof -
  have k: "outline_at h x = Some k \<Longrightarrow> \<exists>c. cell_at h x = Some c \<and> outline c = k" for k
    by (auto simp: outline_at_def)
  show "outline_at h x = Some (InstanceObj rc rf rd) \<Longrightarrow> cell_at h x = Some (InstanceObj rc rf rd)"
    using k [of "InstanceObj rc rf rd"] by (cases "the (cell_at h x)") auto
  show "outline_at h x = Some (CnfObj rl rv) \<Longrightarrow> cell_at h x = Some (CnfObj rl rv)"
    using k [of "CnfObj rl rv"] by (cases "the (cell_at h x)") auto
  show "outline_at h x = Some (ConfigDictObj d) \<Longrightarrow> cell_at h x = Some (ConfigDictObj d)"
    using k [of "ConfigDictObj d"] by (cases "the (cell_at h x)") auto
  show "outline_at h x = Some (CircuitObj empty_circuit) \<Longrightarrow> \<exists>c. cell_at h x = Some (CircuitObj c)"
    using k [of "CircuitObj empty_circuit"] by (cases "the (cell_at h x)") auto
  show "outline_at h x = Some (ClauseListObj []) \<Longrightarrow> \<exists>cs. cell_at h x = Some (ClauseListObj cs)"
    using k [of "ClauseListObj []"] by (cases "the (cell_at h x)") auto
  show "outline_at h x = Some (VarMapObj []) \<Longrightarrow> \<exists>vm. cell_at h x = Some (VarMapObj vm)"
    using k [of "VarMapObj []"] by (cases "the (cell_at h x)") auto
  show "outline_at h x = Some (GateConfigObj blank_config) \<Longrightarrow> \<exists>g. cell_at h x = Some (GateConfigObj g)"
    using k [of "GateConfigObj blank_config"] by (cases "the (cell_at h x)") auto
qed

lemma outline_at_write:
  "cell_at h x = Some c \<Longrightarrow> outline c' = outline c \<Longrightarrow> outline_at (h[x := c']) y = outline_at h y"
  by (auto simp: outline_at_def cell_at_update)

lemma sound_write:
  "sound h a \<Longrightarrow> cell_at h x = Some c \<Longrightarrow> outline c' = outline c \<Longrightarrow> sound (h[x := c']) a"
  by (simp add: sound_def shaped_def outline_at_write)

lemma shaped_reads:
  assumes "shaped h a rc rf rd rl rv d"
  shows "attrs_of h a = Some (rc, rf, rd)"
    and "\<exists>c. circuit_of h a = Some (rc, c)"
    and "\<exists>cs. clause_list_of h a = Some (rl, cs)"
    and "config_of h a l \<noteq> None"
proof -
  from assms have i: "cell_at h a = Some (InstanceObj rc rf rd)"
    and f: "cell_at h rf = Some (CnfObj rl rv)" and dd: "cell_at h rd = Some (ConfigDictObj d)"
    by (simp_all add: shaped_def outline_at_cases)
  from assms obtain c where c: "cell_at h rc = Some (CircuitObj c)"
    using outline_at_cases(4) [of h rc] by (auto simp: shaped_def)
  from assms obtain cs where l: "cell_at h rl = Some (ClauseListObj cs)"
    using outline_at_cases(5) [of h rl] by (auto simp: shaped_def)
  show "attrs_of h a = Some (rc, rf, rd)" using i by (simp add: attrs_of_def)
  then show "\<exists>c. circuit_of h a = Some (rc, c)" using c by (simp add: circuit_of_def)
  show "\<exists>cs. clause_list_of h a = Some (rl, cs)"
    using i f l by (simp add: clause_list_of_def attrs_of_def)
  show "config_of h a l \<noteq> None"
  proof (cases "map_of d l")
    case None
    with i dd show ?thesis by (simp add: config_of_def attrs_of_def)
  next
    case (Some x)
    then have "x \<in> set (map snd d)" by (auto dest!: map_of_SomeD intro: rev_image_eqI)
    with assms obtain g where "cell_at h x = Some (GateConfigObj g)"
      using outline_at_cases(7) [of h x] by (auto simp: shaped_def)
    with i dd Some show ?thesis by (simp add: config_of_def attrs_of_def)
  qed
qed

lemma sound_circuit: "sound h a \<Longrightarrow> \<exists>rc c. circuit_of h a = Some (rc, c)"
  unfolding sound_def by (blast dest: shaped_reads(2))

lemma sound_clause_list: "sound h a \<Longrightarrow> \<exists>rl cs. clause_list_of h a = Some (rl, cs)"
  unfolding sound_def by (blast dest: shaped_reads(3))

lemma sound_config: "sound h a \<Longrightarrow> config_of h a l \<noteq> None"
  unfolding sound_def by (blast dest: shaped_reads(4))

lemma safe_Returned [simp]: "safe (Returned x h) a = sound h a"
  by (simp add: safe_def)

lemma safe_Raised [simp]: "safe (Raised e h) a = sound h a"
  by (simp add: safe_def)

lemma safe_Dangling [simp]: "safe Dangling a = False"
  by (simp add: safe_def)

lemma safe_final: "safe r a \<Longrightarrow> \<exists>h'. final_heap r = Some h' \<and> sound h' a"
  by (cases r) auto

lemma store_add_clause_safe:
  assumes "sound h a"
  shows "safe (store_add_clause h a cl) a"
proof -
  from sound_clause_list [OF assms] obtain rl cs where c: "clause_list_of h a = Some (rl, cs)"
    by blast
  from sound_write [OF assms clause_list_of_cell [OF c], of "ClauseListObj (cs @ [cl])"] c
  show ?thesis by (simp add: store_add_clause_def)
qed

lemma store_idx_safe: "sound h a \<Longrightarrow> safe (store_idx h a l) a"
  using sound_config [of h a l]
  by (auto simp: store_idx_def split: option.splits sum.splits)

lemma unit_clause_safe:
  assumes "sound h a"
  shows "safe (unit_clause h a l v) a"
proof (cases "store_idx h a l")
  case (Returned lit h1)
  with store_idx_final [of h a l h1] have "h1 = h" by simp
  with Returned assms store_add_clause_safe [OF assms] show ?thesis
    by (auto simp: unit_clause_def split: sum.splits)
next
  case (Raised e h1)
  with store_idx_final [of h a l h1] have "h1 = h" by simp
  with Raised assms show ?thesis by (simp add: unit_clause_def)
next
  case Dangling
  with store_idx_safe [OF assms, of l] show ?thesis by simp
qed

lemma binary_clause_safe:
  assumes "sound h a"
  shows "safe (binary_clause h a gate) a"
proof -
  have i: "h' = h \<and> store_idx h a k \<noteq> Dangling" if "store_idx h a k = r" "final_heap r = Some h'" for k r h'
    using that store_idx_final [of h a k h'] by auto
  have d: "store_idx h a k \<noteq> Dangling" for k
    using store_idx_safe [OF assms, of k] by auto
  have s: "safe (case store_add_clause h a cl of Dangling \<Rightarrow> Dangling | Raised e h' \<Rightarrow> Raised e h'
                 | Returned u h' \<Rightarrow> Returned OK h') a" for cl
    using store_add_clause_safe [OF assms, of cl] by (cases "store_add_clause h a cl") auto
  show ?thesis
  proof (cases "length (operands gate) \<noteq> 2")
    case True
    with assms show ?thesis by (simp add: binary_clause_def)
  next
    case False
    show ?thesis
    proof (cases "store_idx h a (operands gate ! 0)")
      case Dangling
      with d show ?thesis by simp
    next
      case (Raised e h1)
      with i [OF Raised] False assms show ?thesis by (simp add: binary_clause_def)
    next
      case r0: (Returned lit0 h0)
      show ?thesis
      proof (cases "store_idx h a (operands gate ! 1)")
        case Dangling
        with d show ?thesis by simp
      next
        case (Raised e h1)
        with i [OF Raised] False r0 assms show ?thesis by (simp add: binary_clause_def)
      next
        case r1: (Returned lit1 h1)
        with False r0 assms s show ?thesis
          by (auto simp: binary_clause_def split: sum.splits)
      qed
    qed
  qed
qed

lemma store_replace_by_constant_safe:
  assumes "sound h a"
  shows "safe (store_replace_by_constant h a gate l v) a"
proof -
  from sound_circuit [OF assms] obtain rc c where c: "circuit_of h a = Some (rc, c)" by blast
  from circuit_of_cells [OF c] have "cell_at h rc = Some (CircuitObj c)" by simp
  from sound_write [OF assms this, of "CircuitObj (constant_in_place c gate l v)"] c
  show ?thesis by (simp add: store_replace_by_constant_def)
qed

lemma assign_input_safe:
  assumes "sound h a"
  shows "safe (assign_input h a l v) a"
proof -
  from sound_circuit [OF assms] obtain rc c where c: "circuit_of h a = Some (rc, c)" by blast
  from circuit_of_cells [OF c] have cc: "cell_at h rc = Some (CircuitObj c)" by simp
  show ?thesis
  proof (cases "replace_inputs c (if v then [l] else []) (if v then [] else [l])")
    case (Inl e)
    with c assms show ?thesis by (simp add: assign_input_def)
  next
    case (Inr c')
    let ?h1 = "h[rc := CircuitObj c']"
    from sound_write [OF assms cc, of "CircuitObj c'"] have s1: "sound ?h1 a" by simp
    show ?thesis
    proof (cases "config_of ?h1 a l")
      case None
      with sound_config [OF s1, of l] show ?thesis by simp
    next
      case (Some r)
      show ?thesis
      proof (cases r)
        case (Inl e)
        with Some c Inr s1 show ?thesis by (simp add: assign_input_def)
      next
        case (Inr xg)
        obtain x g where xg: "xg = (x, g)" by (cases xg)
        from Some Inr xg have cf: "config_of ?h1 a l = Some (Inr (x, g))" by simp
        from sound_write [OF s1 config_of_cell [OF cf], of "GateConfigObj (g\<lparr>gc_value := Some v\<rparr>)"]
        have "sound (?h1[x := GateConfigObj (g\<lparr>gc_value := Some v\<rparr>)]) a" by simp
        with c \<open>replace_inputs c (if v then [l] else []) (if v then [] else [l]) = Inr c'\<close> cf
        show ?thesis by (simp add: assign_input_def)
      qed
    qed
  qed
qed

lemma store_simplify_safe:
  assumes "sound h a"
  shows "safe (store_simplify h a) a"
proof -
  from assms obtain rc rf rd rl rv d where sh: "shaped h a rc rf rd rl rv d"
    by (auto simp: sound_def)
  from shaped_reads(1,2) [OF sh] obtain c where
    at: "attrs_of h a = Some (rc, rf, rd)" and c: "circuit_of h a = Some (rc, c)" by blast
  show ?thesis
  proof (cases "RemoveConstantGates c")
    case (Inl e)
    with c assms show ?thesis by (simp add: store_simplify_def)
  next
    case (Inr c')
    define h' where "h' = (h @ [CircuitObj c'])[a := InstanceObj (length h) rf rd]"
    from sh have ia: "outline_at h a = Some (InstanceObj rc rf rd)" by (simp add: shaped_def)
    then have al: "a < length h" by (auto simp: outline_at_def cell_at_def split: if_splits)
    have other: "outline_at h' y = Some k" if "outline_at h y = Some k" "y \<noteq> a" for y k
    proof -
      from that(1) have "y < length h" by (auto simp: outline_at_def cell_at_def split: if_splits)
      with that show ?thesis by (auto simp: outline_at_def cell_at_def h'_def nth_append)
    qed
    have differ: "y \<noteq> a" if "outline_at h y = Some k" "k \<noteq> InstanceObj rc rf rd" for y k
      using that ia by auto
    have n1: "outline_at h' a = Some (InstanceObj (length h) rf rd)"
      using al by (simp add: outline_at_def cell_at_def h'_def)
    have n2: "outline_at h' (length h) = Some (CircuitObj empty_circuit)"
      using al by (simp add: outline_at_def cell_at_def h'_def)
    have "shaped h' a (length h) rf rd rl rv d"
      unfolding shaped_def
    proof (intro conjI ballI)
      show "outline_at h' a = Some (InstanceObj (length h) rf rd)" by (rule n1)
      show "outline_at h' (length h) = Some (CircuitObj empty_circuit)" by (rule n2)
      from sh have f: "outline_at h rf = Some (CnfObj rl rv)" by (simp add: shaped_def)
      from other [OF f differ [OF f]] show "outline_at h' rf = Some (CnfObj rl rv)" by simp
      from sh have l: "outline_at h rl = Some (ClauseListObj [])" by (simp add: shaped_def)
      from other [OF l differ [OF l]] show "outline_at h' rl = Some (ClauseListObj [])" by simp
      from sh have v: "outline_at h rv = Some (VarMapObj [])" by (simp add: shaped_def)
      from other [OF v differ [OF v]] show "outline_at h' rv = Some (VarMapObj [])" by simp
      from sh have dd: "outline_at h rd = Some (ConfigDictObj d)" by (simp add: shaped_def)
      from other [OF dd differ [OF dd]] show "outline_at h' rd = Some (ConfigDictObj d)" by simp
    next
      fix x assume "x \<in> set (map snd d)"
      with sh have g: "outline_at h x = Some (GateConfigObj blank_config)"
        unfolding shaped_def by blast
      from other [OF g differ [OF g]]
      show "outline_at h' x = Some (GateConfigObj blank_config)" by simp
    qed
    then have "sound h' a" unfolding sound_def by blast
    with c at Inr show ?thesis by (simp add: store_simplify_def alloc_def h'_def)
  qed
qed

lemma store_propagate_safe:
  "sound h a \<Longrightarrow> safe (store_assign_and_propagate h a l v) a"
  "sound h a \<Longrightarrow> safe (store_assign_operands h a ops) a"
proof (induction h a l v and h a ops
       rule: store_assign_and_propagate_store_assign_operands.induct)
  case (1 h a l v)
  note snd = "1.prems"
  from sound_circuit [OF snd] obtain rc c where c: "circuit_of h a = Some (rc, c)" by blast
  show ?case
  proof (cases "get_gate c l")
    case (Inl e)
    with c snd show ?thesis by simp
  next
    case g: (Inr gate)
    show ?thesis
    proof (cases "is_constant (gate_type gate)")
      case True
      with c g snd show ?thesis by simp
    next
      case nc: False
      note us = unit_clause_safe [OF snd, of l v]
      show ?thesis
      proof (cases "unit_clause h a l v")
        case Dangling
        with us show ?thesis by simp
      next
        case (Raised e h1)
        with us c g nc show ?thesis by simp
      next
        case u: (Returned u h1)
        with us have s1: "sound h1 a" by simp
        show ?thesis
        proof (cases "gate_type gate = INPUT")
          case True
          with c g nc u assign_input_safe [OF s1, of l v] show ?thesis by simp
        next
          case ni: False
          note rs = store_replace_by_constant_safe [OF s1, of gate l v]
          show ?thesis
          proof (cases "store_replace_by_constant h1 a gate l v")
            case Dangling
            with rs show ?thesis by simp
          next
            case (Raised e h2)
            with rs c g nc u ni show ?thesis by simp
          next
            case r: (Returned u2 h2)
            with rs have s2: "sound h2 a" by simp
            note ih1 = "1.IH"(1) [OF c refl g nc u ni r]
            note ih2 = "1.IH"(2) [OF c refl g nc u ni r]
            show ?thesis
            proof (cases "gate_type gate = NOT")
              case True
              show ?thesis
              proof (cases "operands gate")
                case Nil
                with c g nc u ni r True s2 show ?thesis by simp
              next
                case (Cons op0 rest)
                with c g nc u ni r True ih1 [OF True Cons s2] show ?thesis by simp
              qed
            next
              case nn: False
              show ?thesis
              proof (cases "gate_type gate = AND \<and> v")
                case True
                with c g nc u ni r nn ih2 [OF nn True s2] show ?thesis by simp
              next
                case False
                with c g nc u ni r nn s2 binary_clause_safe [OF s2, of gate] show ?thesis
                  by auto
              qed
            qed
          qed
        qed
      qed
    qed
  qed
next
  case (2 h a)
  then show ?case by simp
next
  case (3 h a operand_label rest)
  note p = "3.IH"(1) [OF "3.prems"]
  show ?case
  proof (cases "store_assign_and_propagate h a operand_label True")
    case Dangling
    with p show ?thesis by simp
  next
    case (Raised e h1)
    with p show ?thesis by simp
  next
    case r: (Returned status h1)
    with p have s1: "sound h1 a" by simp
    show ?thesis
    proof (cases "status = OK")
      case True
      with r "3.IH"(2) [OF r _ s1] show ?thesis by simp
    next
      case False
      with r s1 show ?thesis by simp
    qed
  qed
qed

lemma store_assign_safe:
  assumes "sound h a"
  shows "safe (store_assign h a l v) a"
proof (cases "store_assign_and_propagate h a l v")
  case Dangling
  with store_propagate_safe(1) [OF assms, of l v] show ?thesis by simp
next
  case (Raised e h1)
  with store_propagate_safe(1) [OF assms, of l v] show ?thesis by (simp add: store_assign_def)
next
  case r: (Returned status h1)
  with store_propagate_safe(1) [OF assms, of l v] have s1: "sound h1 a" by simp
  show ?thesis
  proof (cases "status = OK")
    case True
    with r store_simplify_safe [OF s1] show ?thesis
      by (cases "store_simplify h1 a") (simp_all add: store_assign_def)
  next
    case False
    with r s1 show ?thesis by (simp add: store_assign_def)
  qed
qed

lemma store_assigns_safe: "sound h a \<Longrightarrow> safe (store_assigns h a calls) a"
proof (induction calls arbitrary: h)
  case Nil
  then show ?case by simp
next
  case (Cons call calls)
  obtain l v where call: "call = (l, v)" by (cases call)
  note p = store_assign_safe [OF Cons.prems, of l v]
  show ?case
  proof (cases "store_assign h a l v")
    case Dangling
    with p show ?thesis by simp
  next
    case (Raised e h1)
    with p call show ?thesis by simp
  next
    case r: (Returned status h1)
    with p have s1: "sound h1 a" by simp
    from Cons.IH [OF s1] r call show ?thesis
      by (cases "store_assigns h1 a calls") simp_all
  qed
qed

lemma configs_at_cells:
  "configs_at h d = Some gs \<Longrightarrow> x \<in> set (map snd d) \<Longrightarrow> \<exists>g. cell_at h x = Some (GateConfigObj g)"
proof (induction d arbitrary: gs)
  case Nil
  then show ?case by simp
next
  case (Cons p d)
  obtain l y where p: "p = (l, y)" by (cases p)
  from Cons.prems(1) p obtain g gs' where
    c: "cell_at h y = Some (GateConfigObj g)" and r: "configs_at h d = Some gs'"
    by (auto split: option.splits cell.splits)
  from Cons.prems(2) p have "x = y \<or> x \<in> set (map snd d)" by auto
  then show ?case using c Cons.IH [OF r] by auto
qed

lemma read_instance_sound:
  assumes "read_instance h a = Some s"
  shows "sound h a"
proof -
  from assms obtain rc rf rd c f gs where
    a: "cell_at h a = Some (InstanceObj rc rf rd)" and c: "cell_at h rc = Some (CircuitObj c)"
    and f: "cnf_at h rf = Some f" and g: "config_dict_at h rd = Some gs"
    by (auto simp: read_instance_def attrs_of_def split: option.splits cell.splits)
  from f obtain rl rv cs vm where
    f1: "cell_at h rf = Some (CnfObj rl rv)" and f2: "cell_at h rl = Some (ClauseListObj cs)"
    and f3: "cell_at h rv = Some (VarMapObj vm)"
    by (auto simp: cnf_at_def split: option.splits cell.splits)
  from g obtain d where
    g1: "cell_at h rd = Some (ConfigDictObj d)" and g2: "configs_at h d = Some gs"
    by (auto simp: config_dict_at_def split: option.splits cell.splits)
  have gs: "\<forall>x\<in>set (map snd d). outline_at h x = Some (GateConfigObj blank_config)"
  proof
    fix x assume "x \<in> set (map snd d)"
    from configs_at_cells [OF g2 this] obtain g0 where "cell_at h x = Some (GateConfigObj g0)"
      by blast
    then show "outline_at h x = Some (GateConfigObj blank_config)"
      by (simp add: outline_at_def)
  qed
  have "outline_at h a = Some (InstanceObj rc rf rd)"
    "outline_at h rc = Some (CircuitObj empty_circuit)"
    "outline_at h rf = Some (CnfObj rl rv)"
    "outline_at h rl = Some (ClauseListObj [])"
    "outline_at h rv = Some (VarMapObj [])"
    "outline_at h rd = Some (ConfigDictObj d)"
    using a c f1 f2 f3 g1 by (simp_all add: outline_at_def)
  with gs have "shaped h a rc rf rd rl rv d"
    unfolding shaped_def by blast
  then show ?thesis unfolding sound_def by blast
qed

lemma store_instance_separate:
  assumes "store_instance h s = (b, h1)"
  shows "take (length h) h1 = h" "separate (length h) h1" "length h \<le> b"
proof -
  define n where "n = length h"
  define gc where "gc = gates_config s"
  define added where "added =
     [CircuitObj (circuit s), ClauseListObj (cnf_raw (cnf s)), VarMapObj (var_map (cnf s)),
      CnfObj (n + 1) (n + 2)]
       @ map (\<lambda>p. GateConfigObj (snd p)) gc
       @ [ConfigDictObj (zip (map fst gc) [n + 4 ..< n + 4 + length gc]),
          InstanceObj n (n + 3) (n + 4 + length gc)]"
  from assms have h1: "h1 = h @ added" and b: "b = n + length gc + 5"
    by (simp_all add: store_instance_def Let_def added_def n_def gc_def)
  show "take (length h) h1 = h" by (simp add: h1)
  show "length h \<le> b" by (simp add: b n_def)
  have z: "n \<le> r" if "r \<in> set (map snd (zip (map fst gc) [n + 4 ..< n + 4 + length gc]))" for r
  proof -
    from that have "r \<in> set [n + 4 ..< n + 4 + length gc]"
      by (auto dest: set_zip_rightD)
    then show ?thesis by simp
  qed
  have new: "\<forall>c\<in>set added. \<forall>r\<in>set (refs c). n \<le> r"
    using z by (auto simp: added_def)
  show "separate (length h) h1"
    unfolding separate_def
  proof (intro conjI allI impI)
    show "length h \<le> length h1" by (simp add: h1)
  next
    fix x assume x: "length h \<le> x \<and> x < length h1"
    then have "h1 ! x = added ! (x - length h)" by (simp add: h1 nth_append)
    moreover from x have "x - length h < length added" by (auto simp: h1)
    ultimately have "h1 ! x \<in> set added" by simp
    with new show "\<forall>r\<in>set (refs (h1 ! x)). length h \<le> r" by (simp add: n_def)
  qed
qed

lemma cell_at_prefix:
  assumes "take (length h) h2 = h" "cell_at h x = Some c"
  shows "cell_at h2 x = Some c"
proof -
  from assms(2) have x: "x < length h" "h ! x = c"
    by (simp_all add: cell_at_def split: if_splits)
  from assms(1) have "length (take (length h) h2) = length h" by simp
  then have l: "length h \<le> length h2" by simp
  from x(1) have "take (length h) h2 ! x = h2 ! x" by simp
  with assms(1) x(2) have "h2 ! x = c" by simp
  with x(1) l show ?thesis by (simp add: cell_at_def)
qed

lemma configs_at_prefix:
  assumes "take (length h) h2 = h"
  shows "configs_at h d = Some gs \<Longrightarrow> configs_at h2 d = Some gs"
proof (induction d arbitrary: gs)
  case Nil
  then show ?case by simp
next
  case (Cons p d)
  obtain l x where p: "p = (l, x)" by (cases p)
  from Cons.prems p obtain g gs' where
    c: "cell_at h x = Some (GateConfigObj g)" and r: "configs_at h d = Some gs'"
    and gs: "gs = (l, g) # gs'"
    by (auto split: option.splits cell.splits)
  from cell_at_prefix [OF assms c] Cons.IH [OF r] gs p show ?case by simp
qed

lemma read_instance_prefix:
  assumes "take (length h) h2 = h" "read_instance h a = Some s"
  shows "read_instance h2 a = Some s"
proof -
  note p = cell_at_prefix [OF assms(1)]
  from assms(2) obtain rc rf rd c f gs where
    a: "cell_at h a = Some (InstanceObj rc rf rd)" and c: "cell_at h rc = Some (CircuitObj c)"
    and f: "cnf_at h rf = Some f" and g: "config_dict_at h rd = Some gs"
    and s: "s = \<lparr>circuit = c, cnf = f, gates_config = gs\<rparr>"
    by (auto simp: read_instance_def attrs_of_def split: option.splits cell.splits)
  from f obtain rl rv cs vm where
    f1: "cell_at h rf = Some (CnfObj rl rv)" and f2: "cell_at h rl = Some (ClauseListObj cs)"
    and f3: "cell_at h rv = Some (VarMapObj vm)" and f4: "f = \<lparr>cnf_raw = cs, var_map = vm\<rparr>"
    by (auto simp: cnf_at_def split: option.splits cell.splits)
  from g obtain d where
    g1: "cell_at h rd = Some (ConfigDictObj d)" and g2: "configs_at h d = Some gs"
    by (auto simp: config_dict_at_def split: option.splits cell.splits)
  have "cnf_at h2 rf = Some f"
    using p [OF f1] p [OF f2] p [OF f3] f4 by (simp add: cnf_at_def)
  moreover have "config_dict_at h2 rd = Some gs"
    using p [OF g1] configs_at_prefix [OF assms(1) g2] by (simp add: config_dict_at_def)
  ultimately show ?thesis
    using p [OF a] p [OF c] s by (simp add: read_instance_def attrs_of_def)
qed


text \<open>
  Claim C4. After a deep copy of the instance at address \<open>a\<close>, any sequence of \<open>assign\<close>
  calls on the copy, whatever each call returns and also when one of them raises, ends
  in a store \<open>h2\<close> in which every object that existed before the copy is as it was: the
  store \<open>h\<close> from before the copy is the initial part of \<open>h2\<close>. So the original instance
  still holds the same circuit tables, the same clause list and variable map and the
  same \<open>gates_config\<close> map.
\<close>

theorem deepcopy_frame:
  assumes "deepcopy h a = Some (b, h1)"
  shows "\<exists>h2. final_heap (store_assigns h1 b calls) = Some h2
           \<and> take (length h) h2 = h \<and> read_instance h2 a = read_instance h a"
proof -
  from assms obtain s where s: "read_instance h a = Some s" and st: "store_instance h s = (b, h1)"
    by (auto simp: deepcopy_def split: option.splits)
  note i = store_instance_separate [OF st]
  from read_instance_sound [OF store_instance_read [OF st]] have "sound h1 b" .
  from safe_final [OF store_assigns_safe [OF this, of calls]] obtain h2 where
    f: "final_heap (store_assigns h1 b calls) = Some h2" by blast
  from store_assigns_kept [OF i(2,3) f] have "take (length h) h2 = take (length h) h1"
    by (simp add: kept_def)
  with i(1) have t: "take (length h) h2 = h" by simp
  from read_instance_prefix [OF t s] s t f show ?thesis by simp
qed

lemma c4_facts:
  "deepcopy contradiction_store 11 = Some (23, copied_store)"
  "store_assigns copied_store 23 [(''a'', False), (''y'', True)] = Returned [OK, OK] branch_store"
  "read_instance contradiction_store 11 = Some contradiction_instance"
  "length contradiction_store = 12"
  by code_simp+

text \<open>
  The store follows the instance as a value: the copy holds after the two calls what
  \<open>assign\<close> computes from \<open>contradiction_instance\<close>.
\<close>

lemma branch_store_agrees:
  "(case assign contradiction_instance ''a'' False of
      Inl e \<Rightarrow> None
    | Inr (st1, s1) \<Rightarrow> (case assign s1 ''y'' True of Inl e \<Rightarrow> None | Inr (st2, s2) \<Rightarrow> Some s2))
   = read_instance branch_store 23"
  by code_simp

text \<open>
  With a shallow copy the two instances share their objects, and \<open>assign\<close> on the copy
  changes what the original holds.
\<close>

lemma shallow_copy_shares:
  "shallow_copy contradiction_store 11 = Some (12, shared_store)
   \<and> store_assigns shared_store 12 [(''a'', False)] = Returned [OK] shared_branch_store
   \<and> read_instance shared_branch_store 11 \<noteq> Some contradiction_instance
   \<and> take 12 shared_branch_store \<noteq> contradiction_store"
  by code_simp

text \<open>Claim C4 at a copy of \<open>contradiction_instance\<close> and two calls on the copy.\<close>

theorem deepcopy_frame_witness:
  "deepcopy contradiction_store 11 = Some (23, copied_store)
   \<and> store_assigns copied_store 23 [(''a'', False), (''y'', True)] = Returned [OK, OK] branch_store
   \<and> take 12 branch_store = contradiction_store
   \<and> read_instance branch_store 11 = Some contradiction_instance"
  using deepcopy_frame [OF c4_facts(1), of "[(''a'', False), (''y'', True)]"] c4_facts
  by simp

subsection \<open>Idempotence of the simplifier\<close>

lemma well_built_empty: "well_built empty_circuit"
  by (simp add: well_built_def empty_circuit_def)

lemma well_built_emplace:
  "well_built c \<Longrightarrow> \<not> is_constant t \<Longrightarrow> emplace_gate c l t ops = Inr c' \<Longrightarrow> well_built c'"
  by (auto simp: well_built_def emplace_gate_def mk_gate_def split: if_splits)

lemma well_built_emplace_new:
  "well_built (new_circuit st) \<Longrightarrow> \<not> is_constant t \<Longrightarrow> emplace_new st l t ops = Inr st' \<Longrightarrow>
   well_built (new_circuit st')"
  by (auto simp: emplace_new_def split: sum.splits dest: well_built_emplace)

lemma well_built_step:
  assumes "well_built (new_circuit st)" "rcg_step st g = Inr st'"
  shows "well_built (new_circuit st')"
proof -
  have nc: "\<not> is_constant NOT" "\<not> is_constant INPUT" by (simp_all add: is_constant_def)
  show ?thesis
    using assms nc
    by (auto simp: rcg_step_def Let_def one_const_step_def all_const_step_def set_const_def
          set_remap_def is_constant_def
        split: if_splits sum.splits option.splits list.splits
        dest: well_built_emplace_new)
qed

lemma well_built_loop:
  "well_built (new_circuit st) \<Longrightarrow> rcg_loop st gs = Inr st' \<Longrightarrow> well_built (new_circuit st')"
  by (induction gs arbitrary: st) (auto split: sum.splits dest: well_built_step)

lemma resolve_label_empty [simp]: "resolve_label [] l = l"
  by (simp add: resolve_label_def)

lemma map_resolve_label_empty [simp]: "map (resolve_label []) ls = ls"
  by (induction ls) simp_all

lemma gate_eq_mk: "mk_gate (label g) (gate_type g) (operands g) = (g :: Gate)"
  by (simp add: mk_gate_def)

lemma second_run_step:
  assumes "const_map st = []" "label_remap st = []"
    and "list_all (\<lambda>op. op \<in> fst ` set (gates (new_circuit st))) (operands g)"
    and "label g \<notin> fst ` set (gates (new_circuit st))"
    and "\<not> is_constant (gate_type g)" "arity_ok (gate_type g) (length (operands g))"
  shows "\<exists>st'. rcg_step st g = Inr st' \<and> const_map st' = [] \<and> label_remap st' = []
     \<and> gates (new_circuit st') = gates (new_circuit st) @ [(label g, g)]"
proof -
  have e: "emplace_new st (label g) (gate_type g) (operands g)
        = Inr (st\<lparr>new_circuit := (new_circuit st)
                 \<lparr>gates := gates (new_circuit st) @ [(label g, g)],
                  users := foldl (add_user (label g)) (users (new_circuit st)) (operands g),
                  inputs := (if gate_type g = INPUT then inputs (new_circuit st) @ [label g]
                             else inputs (new_circuit st))\<rparr>\<rparr>)"
    using assms(3,4,6) by (simp add: emplace_new_def emplace_gate_def gate_eq_mk)
  have "rcg_step st g = emplace_new st (label g) (gate_type g) (operands g)"
    using assms(1,2,5) by (simp add: rcg_step_def Let_def is_constant_def)
  with e assms(1,2) show ?thesis by simp
qed

lemma second_run_loop:
  assumes "const_map st = []" "label_remap st = []"
    and "operands_first (map fst (gates (new_circuit st))) gs"
    and "\<forall>g\<in>set gs. \<not> is_constant (gate_type g) \<and> arity_ok (gate_type g) (length (operands g))"
  shows "\<exists>st'. rcg_loop st gs = Inr st' \<and> const_map st' = [] \<and> label_remap st' = []
     \<and> gates (new_circuit st') = gates (new_circuit st) @ map (\<lambda>g. (label g, g)) gs"
  using assms
proof (induction gs arbitrary: st)
  case Nil
  then show ?case by simp
next
  case (Cons g gs)
  from Cons.prems(3) have
    ops: "list_all (\<lambda>op. op \<in> fst ` set (gates (new_circuit st))) (operands g)"
    and fresh: "label g \<notin> fst ` set (gates (new_circuit st))"
    and rest: "operands_first (map fst (gates (new_circuit st)) @ [label g]) gs"
    by simp_all
  from Cons.prems(4) have
    g: "\<not> is_constant (gate_type g)" "arity_ok (gate_type g) (length (operands g))"
    and gs: "\<forall>g\<in>set gs. \<not> is_constant (gate_type g) \<and> arity_ok (gate_type g) (length (operands g))"
    by simp_all
  from second_run_step [OF Cons.prems(1,2) ops fresh g] obtain st1 where
    st1: "rcg_step st g = Inr st1" "const_map st1 = []" "label_remap st1 = []"
      "gates (new_circuit st1) = gates (new_circuit st) @ [(label g, g)]"
    by blast
  from rest st1(4) have "operands_first (map fst (gates (new_circuit st1))) gs" by simp
  from Cons.IH [OF st1(2,3) this gs] obtain st' where
    "rcg_loop st1 gs = Inr st'" "const_map st' = []" "label_remap st' = []"
    "gates (new_circuit st') = gates (new_circuit st1) @ map (\<lambda>g. (label g, g)) gs"
    by blast
  with st1 show ?case by simp
qed

lemma operands_first_distinct:
  "operands_first seen gs \<Longrightarrow> distinct (map label gs) \<and> set (map label gs) \<inter> set seen = {}"
  by (induction gs arbitrary: seen) (fastforce)+

lemma arity_ok_le2: "arity_ok t n \<Longrightarrow> n \<le> 2"
  by (cases t) auto

lemma transform_with_output:
  assumes "transform_with ts c = Inr c'"
  shows "well_built c' \<and> list_all (\<lambda>l. l \<in> fst ` set (gates c')) (inputs c')
     \<and> list_all (\<lambda>l. l \<in> fst ` set (gates c')) (outputs c')"
proof -
  from assms obtain order st c1 fi fo where
    l: "rcg_loop \<lparr>new_circuit = empty_circuit, const_map = [], label_remap = []\<rparr> order = Inr st"
    and i: "set_inputs (new_circuit st) fi = Inr c1"
    and o: "set_outputs c1 fo = Inr c'"
    by (auto simp: transform_with_def Let_def split: if_splits sum.splits)
  from well_built_loop [OF _ l] have w: "well_built (new_circuit st)"
    by (simp add: well_built_empty)
  from i have c1: "gates c1 = gates (new_circuit st)" "inputs c1 = fi"
    "list_all (\<lambda>l. l \<in> fst ` set (gates (new_circuit st))) fi"
    by (auto simp: set_inputs_def split: if_splits)
  from o have c': "gates c' = gates c1" "inputs c' = inputs c1" "outputs c' = fo"
    "list_all (\<lambda>l. l \<in> fst ` set (gates c1)) fo"
    by (auto simp: set_outputs_def split: if_splits)
  from w c1 c' show ?thesis by (simp add: well_built_def)
qed

lemma second_run_same_gates:
  assumes "transform_with ts c = Inr c'"
    and "ts c' = Inr order'" and "topological_enumeration c' order'"
  shows "\<exists>c''. transform_with ts c' = Inr c''
     \<and> set (gates c'') = set (gates c') \<and> distinct (map fst (gates c''))
     \<and> inputs c'' = inputs c' \<and> outputs c'' = outputs c'"
proof -
  from transform_with_output [OF assms(1)] have w: "well_built c'"
    and ins: "list_all (\<lambda>l. l \<in> fst ` set (gates c')) (inputs c')"
    and outs: "list_all (\<lambda>l. l \<in> fst ` set (gates c')) (outputs c')"
    by simp_all
  from assms(3) have so: "set order' = snd ` set (gates c')" and of: "operands_first [] order'"
    by (simp_all add: topological_enumeration_def)
  let ?st0 = "\<lparr>new_circuit = empty_circuit, const_map = [], label_remap = []\<rparr>"
  from w so have props:
    "\<forall>g\<in>set order'. \<not> is_constant (gate_type g) \<and> arity_ok (gate_type g) (length (operands g))"
    by (auto simp: well_built_def)
  from w have small: "list_all (\<lambda>p. length (operands (snd p)) \<le> 2) (gates c')"
    by (auto simp: well_built_def list_all_iff dest: arity_ok_le2)
  from second_run_loop [of ?st0 order'] of props obtain st' where
    st': "rcg_loop ?st0 order' = Inr st'" "const_map st' = []" "label_remap st' = []"
      "gates (new_circuit st') = map (\<lambda>g. (label g, g)) order'"
    by (auto simp: empty_circuit_def)
  have gs: "set (gates (new_circuit st')) = set (gates c')"
  proof -
    have "(\<lambda>g. (label g, g)) ` snd ` set (gates c') = set (gates c')"
      using w by (force simp: well_built_def image_iff)
    with st'(4) so show ?thesis by simp
  qed
  then have keys: "fst ` set (gates (new_circuit st')) = fst ` set (gates c')" by simp
  let ?c'' = "(new_circuit st')\<lparr>inputs := inputs c', outputs := outputs c'\<rparr>"
  have "transform_with ts c' = Inr ?c''"
    using small assms(2) st' ins outs keys
    by (simp add: transform_with_def Let_def set_inputs_def set_outputs_def)
  moreover have "distinct (map fst (gates ?c''))"
    using operands_first_distinct [OF of] st'(4) by (simp add: comp_def)
  ultimately show ?thesis using gs by simp
qed

text \<open>
  Claim C5. If the simplifier succeeds on a circuit, and the topological sort of its
  output yields a topological enumeration of that output (whatever the order), then the
  simplifier succeeds on the output and returns a circuit with the same gates (as a
  set: equal up to creation order), the same inputs and the same outputs.
\<close>

theorem simplifier_idempotent:
  assumes "transform_with ts c = Inr c'"
    and "ts c' = Inr order'" and "topological_enumeration c' order'"
  shows "\<exists>c''. transform_with ts c' = Inr c''
     \<and> set (gates c'') = set (gates c') \<and> distinct (map fst (gates c''))
     \<and> inputs c'' = inputs c' \<and> outputs c'' = outputs c'"
  using assms by (rule second_run_same_gates)

text \<open>
  With the topological sort as modelled here the hypothesis on the order always holds:
  the output is inserted operands first, and the sort yields the gates in that order.
\<close>

lemma operands_first_append:
  "operands_first seen (gs @ [g]) =
     (operands_first seen gs
      \<and> list_all (\<lambda>op. op \<in> set seen \<union> label ` set gs) (operands g)
      \<and> label g \<notin> set seen \<union> label ` set gs)"
  by (induction gs arbitrary: seen) (auto simp: list_all_iff)

lemma insertion_ordered_emplace:
  assumes "well_built c" "insertion_ordered c" "emplace_gate c l t ops = Inr c'"
  shows "insertion_ordered c'"
proof -
  from assms(1) have keys: "label ` snd ` set (gates c) = fst ` set (gates c)"
    by (force simp: well_built_def image_iff)
  from assms(3) have "gates c' = gates c @ [(l, mk_gate l t ops)]"
    "l \<notin> fst ` set (gates c)" "list_all (\<lambda>op. op \<in> fst ` set (gates c)) ops"
    by (auto simp: emplace_gate_def split: if_splits)
  with assms(2) keys show ?thesis
    by (simp add: insertion_ordered_def operands_first_append mk_gate_def image_image)
qed

lemma insertion_ordered_emplace_new:
  "well_built (new_circuit st) \<Longrightarrow> insertion_ordered (new_circuit st) \<Longrightarrow>
   emplace_new st l t ops = Inr st' \<Longrightarrow> insertion_ordered (new_circuit st')"
  by (auto simp: emplace_new_def split: sum.splits dest: insertion_ordered_emplace)

lemma insertion_ordered_step:
  assumes "well_built (new_circuit st)" "insertion_ordered (new_circuit st)"
    and "rcg_step st g = Inr st'"
  shows "insertion_ordered (new_circuit st')"
  using assms
  by (auto simp: rcg_step_def Let_def one_const_step_def all_const_step_def set_const_def
        set_remap_def
      split: if_splits sum.splits option.splits list.splits
      dest: insertion_ordered_emplace_new)

lemma insertion_ordered_loop:
  "well_built (new_circuit st) \<Longrightarrow> insertion_ordered (new_circuit st) \<Longrightarrow>
   rcg_loop st gs = Inr st' \<Longrightarrow> insertion_ordered (new_circuit st')"
proof (induction gs arbitrary: st)
  case Nil
  then show ?case by simp
next
  case (Cons g gs)
  from Cons.prems(3) obtain st1 where s: "rcg_step st g = Inr st1" "rcg_loop st1 gs = Inr st'"
    by (auto split: sum.splits)
  from Cons.IH [OF well_built_step [OF Cons.prems(1) s(1)]
      insertion_ordered_step [OF Cons.prems(1,2) s(1)] s(2)]
  show ?case .
qed

lemma top_sort_from_ordered:
  "operands_first emitted (map snd pending) \<Longrightarrow> \<forall>p\<in>set pending. label (snd p) = fst p \<Longrightarrow>
   top_sort_from pending emitted = Inr (map snd pending)"
proof (induction pending arbitrary: emitted)
  case Nil
  then show ?case by simp
next
  case (Cons p pending)
  from Cons.prems have ready: "set (operands (snd p)) \<subseteq> set emitted"
    and rest: "operands_first (emitted @ [fst p]) (map snd pending)"
    and keys: "\<forall>p\<in>set pending. label (snd p) = fst p"
    by (auto simp: list_all_iff)
  from Cons.IH [OF rest keys] ready show ?case
    by (subst top_sort_from.simps) simp
qed

lemma transform_with_ordered:
  assumes "transform_with ts c = Inr c'"
  shows "insertion_ordered c'"
proof -
  from assms obtain order st c1 fi fo where
    l: "rcg_loop \<lparr>new_circuit = empty_circuit, const_map = [], label_remap = []\<rparr> order = Inr st"
    and i: "set_inputs (new_circuit st) fi = Inr c1"
    and o: "set_outputs c1 fo = Inr c'"
    by (auto simp: transform_with_def Let_def split: if_splits sum.splits)
  have "insertion_ordered empty_circuit"
    by (simp add: insertion_ordered_def empty_circuit_def)
  with insertion_ordered_loop [OF _ _ l] well_built_empty
  have "insertion_ordered (new_circuit st)" by simp
  moreover from i o have "gates c' = gates (new_circuit st)"
    by (auto simp: set_inputs_def set_outputs_def split: if_splits)
  ultimately show ?thesis by (simp add: insertion_ordered_def)
qed

lemma RemoveConstantGates_idempotent:
  assumes "RemoveConstantGates c = Inr c'"
  shows "\<exists>c''. RemoveConstantGates c' = Inr c''
     \<and> set (gates c'') = set (gates c') \<and> distinct (map fst (gates c''))
     \<and> inputs c'' = inputs c' \<and> outputs c'' = outputs c'"
proof -
  from assms have t: "transform_with top_sort_inverse c = Inr c'"
    by (simp add: RemoveConstantGates_def)
  from transform_with_output [OF t] have w: "well_built c'" by simp
  from transform_with_ordered [OF t] have o: "operands_first [] (map snd (gates c'))"
    by (simp add: insertion_ordered_def)
  from w have k: "\<forall>p\<in>set (gates c'). label (snd p) = fst p" by (simp add: well_built_def)
  from top_sort_from_ordered [OF o k] have ts: "top_sort_inverse c' = Inr (map snd (gates c'))"
    by (simp add: top_sort_inverse_def)
  from o have "topological_enumeration c' (map snd (gates c'))"
    by (simp add: topological_enumeration_def)
  from second_run_same_gates [OF t ts this] show ?thesis
    by (simp add: RemoveConstantGates_def)
qed

lemma c5_facts:
  "transform_with top_sort_inverse folding_circuit = Inr folded_circuit"
  "top_sort_inverse folded_circuit
     = Inr [mk_gate ''x'' INPUT [], mk_gate ''h'' NOT [''x''], mk_gate ''k'' AND [''h'', ''x'']]"
  "topological_enumeration folded_circuit
     [mk_gate ''x'' INPUT [], mk_gate ''h'' NOT [''x''], mk_gate ''k'' AND [''h'', ''x'']]"
  by code_simp+

text \<open>Claim C5 at \<open>folding_circuit\<close>, with the topological sort modelled above.\<close>

theorem simplifier_idempotent_witness:
  "transform_with top_sort_inverse folding_circuit = Inr folded_circuit
   \<and> topological_enumeration folded_circuit
       [mk_gate ''x'' INPUT [], mk_gate ''h'' NOT [''x''], mk_gate ''k'' AND [''h'', ''x'']]
   \<and> (\<exists>c''. transform_with top_sort_inverse folded_circuit = Inr c''
          \<and> set (gates c'') = set (gates folded_circuit) \<and> distinct (map fst (gates c''))
          \<and> inputs c'' = inputs folded_circuit \<and> outputs c'' = outputs folded_circuit)"
  using simplifier_idempotent [OF c5_facts] c5_facts by simp

subsection \<open>The forced branch and the depth counter\<close>

text \<open>
  Claim C6, as the code has it. When gate selection returns a forced value, \<open>_cube\<close>
  applies the assignment and recurses with \<open>depth + 1\<close>: the forced branch consumes a
  depth level, and at the last level the result is the one instance after the forced
  assignment.
\<close>

theorem forced_branch_increments_depth:
  assumes "\<not> should_stop max_depth instance depth"
    and "select_gate k instance = Inr (Some sel)"
    and "sel_forced_value sel = Some fv"
    and "assign instance (sel_label sel) fv = Inr (st, instance')"
  shows "cube_rec max_depth k instance depth = cube_rec max_depth k instance' (depth + 1)
     \<and> (if max_depth \<le> depth + 1 then cube_rec max_depth k instance depth = Inr [instance']
         else True)"
proof -
  have 1: "cube_rec max_depth k instance depth = cube_rec max_depth k instance' (depth + 1)"
    by (subst cube_rec.simps) (simp add: assms)
  have "max_depth \<le> depth + 1 \<Longrightarrow> cube_rec max_depth k instance' (depth + 1) = Inr [instance']"
    by (subst cube_rec.simps) (simp add: should_stop_def)
  with 1 show ?thesis by simp
qed

lemma c6_facts:
  "\<not> should_stop 1 contradiction_instance 0"
  "select_gate 10 contradiction_instance = Inr (Some \<lparr>sel_label = ''a'', sel_forced_value = Some False\<rparr>)"
  "assign contradiction_instance ''a'' False = Inr (OK, forced_applied_instance)"
  by code_simp+

text \<open>Claim C6 (amended) at \<open>contradiction_instance\<close>, with \<open>max_depth = 1\<close>.\<close>

theorem forced_branch_increments_depth_witness:
  "\<not> should_stop 1 contradiction_instance 0
   \<and> select_gate 10 contradiction_instance = Inr (Some \<lparr>sel_label = ''a'', sel_forced_value = Some False\<rparr>)
   \<and> assign contradiction_instance ''a'' False = Inr (OK, forced_applied_instance)
   \<and> cube_rec 1 10 contradiction_instance 0 = cube_rec 1 10 forced_applied_instance (0 + 1)
   \<and> cube_rec 1 10 contradiction_instance 0 = Inr [forced_applied_instance]"
  using forced_branch_increments_depth [of 1 contradiction_instance 0 10
      "\<lparr>sel_label = ''a'', sel_forced_value = Some False\<rparr>" False OK forced_applied_instance]
    c6_facts
  by simp

text \<open>
  Claim C6 as stated fails. For \<open>contradiction_instance\<close> the selection is forced
  (\<open>a\<close> must be false). With \<open>max_depth = 1\<close> the driver returns one cube; recursing at
  the same depth on the instance after the forced assignment would return two.
\<close>

theorem forced_branch_same_depth_counterexample:
  "from_circuit contradiction_circuit = Some (Inr (Some contradiction_instance))
   \<and> select_gate 10 contradiction_instance = Inr (Some \<lparr>sel_label = ''a'', sel_forced_value = Some False\<rparr>)
   \<and> assign contradiction_instance ''a'' False = Inr (OK, forced_applied_instance)
   \<and> map_sum id length (cube_rec 1 10 contradiction_instance 0) = Inr 1
   \<and> map_sum id length (cube_rec 1 10 forced_applied_instance 0) = Inr 2
   \<and> cube_rec 1 10 contradiction_instance 0 \<noteq> cube_rec 1 10 forced_applied_instance 0"
  by code_simp

subsection \<open>The model array of conquer\<close>

lemma py_list_set_in_range:
  "1 \<le> v \<Longrightarrow> v \<le> int (length m) \<Longrightarrow> py_list_set m (v - 1) x = Inr (m[nat (v - 1) := x])"
  by (simp add: py_list_set_def Let_def)

lemma fill_model_spec:
  assumes "model result \<noteq> None"
    and "\<forall>gc\<in>set gcs. is_input gc \<longrightarrow> (\<exists>v. idx gc = Some v \<and> 1 \<le> v \<and> v \<le> int (length m))"
    and "distinct (map idx (filter is_input gcs))"
  shows "\<exists>m'. fill_model result m gcs = Inr m' \<and> length m' = length m
     \<and> (\<forall>gc\<in>set gcs. is_input gc \<longrightarrow>
           m' ! nat (the (idx gc) - 1) =
             (if gc_value gc = Some True then the (idx gc) else - the (idx gc)))
     \<and> (\<forall>k<length m. (\<forall>gc\<in>set gcs. is_input gc \<longrightarrow> idx gc \<noteq> Some (int k + 1)) \<longrightarrow> m' ! k = m ! k)"
  using assms(2,3)
proof (induction gcs arbitrary: m)
  case Nil
  then show ?case by simp
next
  case (Cons gc gcs)
  show ?case
  proof (cases "is_input gc")
    case False
    from Cons.prems have
      "\<forall>gc\<in>set gcs. is_input gc \<longrightarrow> (\<exists>v. idx gc = Some v \<and> 1 \<le> v \<and> v \<le> int (length m))"
      "distinct (map idx (filter is_input gcs))" using False by auto
    from Cons.IH [OF this] False show ?thesis by auto
  next
    case True
    with Cons.prems(1) obtain v where v: "idx gc = Some v" "1 \<le> v" "v \<le> int (length m)"
      by auto
    let ?x = "if gc_value gc = Some True then v else - v"
    let ?m1 = "m[nat (v - 1) := ?x]"
    have set1: "py_list_set m (v - 1) ?x = Inr ?m1"
      using py_list_set_in_range [OF v(2,3)] by simp
    from Cons.prems True have
      p1: "\<forall>gc\<in>set gcs. is_input gc \<longrightarrow> (\<exists>v. idx gc = Some v \<and> 1 \<le> v \<and> v \<le> int (length ?m1))"
      and p2: "distinct (map idx (filter is_input gcs))"
      and fresh: "\<forall>gc'\<in>set gcs. is_input gc' \<longrightarrow> idx gc' \<noteq> Some v"
      using v(1) by (auto simp: image_iff)
    from Cons.IH [OF p1 p2] obtain m' where
      m': "fill_model result ?m1 gcs = Inr m'" "length m' = length m"
      and vals: "\<forall>gc\<in>set gcs. is_input gc \<longrightarrow>
           m' ! nat (the (idx gc) - 1) =
             (if gc_value gc = Some True then the (idx gc) else - the (idx gc))"
      and frame: "\<forall>k<length ?m1. (\<forall>gc\<in>set gcs. is_input gc \<longrightarrow> idx gc \<noteq> Some (int k + 1)) \<longrightarrow> m' ! k = ?m1 ! k"
      by auto
    have eq: "fill_model result m (gc # gcs) = Inr m'"
      using True assms(1) v(1) set1 m'(1) by simp
    have kv: "nat (v - 1) < length m" "int (nat (v - 1)) + 1 = v" using v(2,3) by auto
    have here: "m' ! nat (v - 1) = ?x"
    proof -
      from frame kv fresh have "m' ! nat (v - 1) = ?m1 ! nat (v - 1)" by simp
      with kv(1) show ?thesis by simp
    qed
    have frame': "m' ! k = m ! k"
      if "k < length m" "\<forall>gc\<in>set (gc # gcs). is_input gc \<longrightarrow> idx gc \<noteq> Some (int k + 1)" for k
    proof -
      from that True v(1) have "int k + 1 \<noteq> v" by auto
      then have ne: "k \<noteq> nat (v - 1)" using v(2) by auto
      from that frame have "m' ! k = ?m1 ! k" by simp
      with ne show ?thesis by simp
    qed
    from eq m'(2) here vals frame' v(1) show ?thesis by auto
  qed
qed

lemma conquer_skips:
  "\<forall>i\<in>set pre. \<not> answer (backend (cnf i)) \<Longrightarrow>
   conquer backend (pre @ rest) = conquer backend rest"
  by (induction pre) (auto simp: Let_def)

text \<open>
  Claim C7, as the code has it. On the first cube for which the backend answers SAT (and
  gives a model), \<open>conquer\<close> returns an array whose length is the number of entries of
  \<open>gates_config\<close>; for an INPUT entry with variable \<open>v\<close> the slot \<open>v - 1\<close> holds \<open>v\<close> when the
  recorded value is true and \<open>-v\<close> when it is false; a slot that is \<open>v - 1\<close> for no INPUT
  entry holds zero. The INPUT entries are taken to have distinct variables within
  \<open>1 .. length\<close>.
\<close>

theorem conquer_model:
  assumes "\<forall>i\<in>set pre. \<not> answer (backend (cnf i))"
    and "answer (backend (cnf inst))" and "model (backend (cnf inst)) \<noteq> None"
    and "\<forall>gc\<in>set (map snd (gates_config inst)). is_input gc \<longrightarrow>
           (\<exists>v. idx gc = Some v \<and> 1 \<le> v \<and> v \<le> int (length (gates_config inst)))"
    and "distinct (map idx (filter is_input (map snd (gates_config inst))))"
  shows "\<exists>m. conquer backend (pre @ inst # post) = Inr \<lparr>answer = True, model = Some m\<rparr>
     \<and> length m = length (gates_config inst)
     \<and> (\<forall>gc\<in>set (map snd (gates_config inst)). is_input gc \<longrightarrow>
           (gc_value gc = Some True \<longrightarrow> m ! nat (the (idx gc) - 1) = the (idx gc))
         \<and> (gc_value gc = Some False \<longrightarrow> m ! nat (the (idx gc) - 1) = - the (idx gc)))
     \<and> (\<forall>k<length m. (\<forall>gc\<in>set (map snd (gates_config inst)). is_input gc \<longrightarrow>
             idx gc \<noteq> Some (int k + 1)) \<longrightarrow> m ! k = 0)"
proof -
  let ?m0 = "replicate (length (gates_config inst)) (0::int)"
  have len: "length ?m0 = length (gates_config inst)" by simp
  from assms(4) have
    "\<forall>gc\<in>set (map snd (gates_config inst)). is_input gc \<longrightarrow>
       (\<exists>v. idx gc = Some v \<and> 1 \<le> v \<and> v \<le> int (length ?m0))"
    by simp
  from fill_model_spec [OF assms(3) this assms(5)] obtain m where
    m: "fill_model (backend (cnf inst)) ?m0 (map snd (gates_config inst)) = Inr m"
       "length m = length ?m0"
    and vals: "\<forall>gc\<in>set (map snd (gates_config inst)). is_input gc \<longrightarrow>
           m ! nat (the (idx gc) - 1) =
             (if gc_value gc = Some True then the (idx gc) else - the (idx gc))"
    and frame: "\<forall>k<length ?m0. (\<forall>gc\<in>set (map snd (gates_config inst)). is_input gc \<longrightarrow>
             idx gc \<noteq> Some (int k + 1)) \<longrightarrow> m ! k = ?m0 ! k"
    by blast
  have "conquer backend (pre @ inst # post) = Inr \<lparr>answer = True, model = Some m\<rparr>"
    using conquer_skips [OF assms(1)] assms(2) m(1) by (simp add: Let_def)
  moreover from frame m(2) have
    "\<forall>k<length m. (\<forall>gc\<in>set (map snd (gates_config inst)). is_input gc \<longrightarrow>
             idx gc \<noteq> Some (int k + 1)) \<longrightarrow> m ! k = 0"
    by simp
  moreover from vals have
    "\<forall>gc\<in>set (map snd (gates_config inst)). is_input gc \<longrightarrow>
           (gc_value gc = Some True \<longrightarrow> m ! nat (the (idx gc) - 1) = the (idx gc))
         \<and> (gc_value gc = Some False \<longrightarrow> m ! nat (the (idx gc) - 1) = - the (idx gc))"
    by auto
  ultimately show ?thesis using m(2) by auto
qed

lemma c7_facts:
  "answer (sat_backend (cnf dangling_instance))"
  "model (sat_backend (cnf dangling_instance)) \<noteq> None"
  "distinct (map idx (filter is_input (map snd (gates_config dangling_instance))))"
  "length (gates_config dangling_instance) = 4"
  by code_simp+

lemma c7_range:
  "\<forall>gc\<in>set (map snd (gates_config dangling_instance)). is_input gc \<longrightarrow>
     (\<exists>v. idx gc = Some v \<and> 1 \<le> v \<and> v \<le> int (length (gates_config dangling_instance)))"
  by (simp add: dangling_instance_def)

text \<open>Claim C7 (amended) at the one cube \<open>dangling_instance\<close>.\<close>

theorem conquer_model_witness:
  "answer (sat_backend (cnf dangling_instance))
   \<and> (\<exists>m. conquer sat_backend ([] @ dangling_instance # [])
             = Inr \<lparr>answer = True, model = Some m\<rparr>
          \<and> length m = 4 \<and> m ! 0 = 1 \<and> m ! 1 = 2 \<and> m ! 2 = 0 \<and> m ! 3 = 0)"
proof -
  from conquer_model [of "[]" sat_backend dangling_instance "[]", OF _ c7_facts(1,2) c7_range c7_facts(3)]
  obtain m where
    m: "conquer sat_backend ([] @ dangling_instance # []) = Inr \<lparr>answer = True, model = Some m\<rparr>"
       "length m = length (gates_config dangling_instance)"
    and vals: "\<forall>gc\<in>set (map snd (gates_config dangling_instance)). is_input gc \<longrightarrow>
           (gc_value gc = Some True \<longrightarrow> m ! nat (the (idx gc) - 1) = the (idx gc))
         \<and> (gc_value gc = Some False \<longrightarrow> m ! nat (the (idx gc) - 1) = - the (idx gc))"
    and zeros: "\<forall>k<length m. (\<forall>gc\<in>set (map snd (gates_config dangling_instance)). is_input gc \<longrightarrow>
             idx gc \<noteq> Some (int k + 1)) \<longrightarrow> m ! k = 0"
    by auto
  from m(2) have len: "length m = 4" by (simp add: c7_facts(4))
  from vals have "m ! 0 = 1" "m ! 1 = 2" by (simp_all add: dangling_instance_def)
  moreover have nz: "\<forall>gc\<in>set (map snd (gates_config dangling_instance)). is_input gc \<longrightarrow>
             idx gc \<noteq> Some (int k + 1)" if "k = 2 \<or> k = 3" for k
    using that by (auto simp: dangling_instance_def)
  have "m ! 2 = 0" "m ! 3 = 0"
    using zeros [THEN spec, of 2] zeros [THEN spec, of 3] nz [of 2] nz [of 3] len by simp_all
  ultimately show ?thesis using m(1) len c7_facts(1) by blast
qed

text \<open>
  Claim C7 as stated fails. The instance of \<open>dangling_circuit\<close> has three CNF variables
  and four gates, and the model array has length four. The inputs of
  \<open>contradiction_instance\<close> have no recorded value, and their slots hold \<open>-1\<close> and \<open>-2\<close>.
\<close>

theorem model_length_counterexample:
  "from_circuit dangling_circuit = Some (Inr (Some dangling_instance))
   \<and> conquer sat_backend [dangling_instance] = Inr \<lparr>answer = True, model = Some [1, 2, 0, 0]\<rparr>
   \<and> length (var_map (cnf dangling_instance)) = 3
   \<and> conquer sat_backend [contradiction_instance]
       = Inr \<lparr>answer = True, model = Some [- 1, - 2, 0, 0, 0, 0]\<rparr>
   \<and> map (\<lambda>p. gc_value (snd p)) (gates_config contradiction_instance)
       = [None, None, None, None, None, None]"
  by code_simp

subsection \<open>Validation at construction\<close>

lemma check_gates_eq:
  "check_gates gs = (if list_all gate_supported gs then Inr () else Inl ValueError)"
  by (induction gs) auto

lemma gate_supported_eq:
  "gate_supported = (\<lambda>g. gate_type g = INPUT
                      \<or> (gate_type g = AND \<and> length (operands g) = 2)
                      \<or> (gate_type g = NOT \<and> length (operands g) = 1))"
  by (auto simp: gate_supported_def fun_eq_iff)

text \<open>
  After the check, nothing in the constructor raises \<open>ValueError\<close>: the encoder raises it
  only for a gate type outside INPUT, NOT, AND and the constants, and every gate it looks
  up has passed the check.
\<close>

lemma get_gate_supported:
  "get_gate c l = Inr gate \<Longrightarrow> list_all gate_supported (map snd (gates c)) \<Longrightarrow> gate_supported gate"
  by (auto simp: get_gate_def list_all_iff split: option.splits dest!: map_of_SomeD)

lemma get_gate_error: "get_gate c l \<noteq> Inl ValueError"
  by (auto simp: get_gate_def split: option.splits)

lemma gate_clauses_supported:
  "gate_supported gate \<Longrightarrow> gate_clauses (gate_type gate) t lits \<noteq> Inl ValueError"
  by (auto simp: gate_supported_def gate_clauses_def split: if_splits list.splits)

lemma encode_gate_supported:
  "gate_supported gate \<Longrightarrow> encode_gate s gate l \<noteq> Inl ValueError"
  using gate_clauses_supported [of gate]
  by (auto simp: encode_gate_def Let_def split: prod.splits sum.splits)

lemma process_stack_supported:
  assumes "process_stack c stack s = Some r"
  shows "list_all gate_supported (map snd (gates c)) \<longrightarrow> r \<noteq> Inl ValueError"
proof (rule process_stack.raw_induct
         [where P = "\<lambda>c stack s r. list_all gate_supported (map snd (gates c)) \<longrightarrow> r \<noteq> Inl ValueError",
          rotated, OF assms], goal_cases)
  case (1 process_stack c stack s r)
  show ?case
  proof
    assume sup: "list_all gate_supported (map snd (gates c))"
    show "r \<noteq> Inl ValueError"
    proof (cases stack)
      case Nil
      with 1(2) show ?thesis by auto
    next
      case (Cons p rest)
      obtain l expanded where p: "p = (l, expanded)" by (cases p)
      show ?thesis
      proof (cases "get_gate c l")
        case (Inl e)
        with 1(2) Cons p 1(1) sup get_gate_error [of c l] show ?thesis
          by (auto split: if_splits)
      next
        case (Inr gate)
        from get_gate_supported [OF Inr sup] have gs: "gate_supported gate" .
        from 1(2) Cons p Inr 1(1) sup encode_gate_supported [OF gs, of s l] show ?thesis
          by (auto split: if_splits sum.splits)
      qed
    qed
  qed
qed

lemma process_root_supported:
  "process_root c s r = Some y \<Longrightarrow> list_all gate_supported (map snd (gates c)) \<Longrightarrow> y \<noteq> Inl ValueError"
  using process_stack_supported [of c "[(r, False)]" s]
  by (auto simp: process_root_def Let_def split: option.splits sum.splits prod.splits)

lemma process_roots_supported:
  "process_roots c s rs = Some y \<Longrightarrow> list_all gate_supported (map snd (gates c)) \<Longrightarrow> y \<noteq> Inl ValueError"
proof (induction rs arbitrary: s)
  case Nil
  then show ?case by auto
next
  case (Cons r rs)
  then show ?case
    using process_root_supported [of c s r]
    by (auto split: option.splits sum.splits)
qed

lemma tseytin_supported:
  "list_all gate_supported (map snd (gates c)) \<Longrightarrow> tseytin_transformation c \<noteq> Some (Inl ValueError)"
  using process_roots_supported [of c "init_lits c" "outputs c"]
  by (auto simp: tseytin_transformation_def split: option.splits sum.splits)

lemma init_gates_config_error: "init_gates_config c f \<noteq> Inl ValueError"
  by (simp add: init_gates_config_def)

text \<open>
  Claim C8, as the code has it. The construction of a \<open>CircuitSatInstance\<close> raises
  \<open>ValueError\<close> exactly when some gate is not an INPUT, an AND with two operands or a NOT
  with one operand: a gate of any other type, the constants ALWAYS_TRUE and ALWAYS_FALSE
  included, or an AND or NOT of another arity. The error comes from \<open>_check_circuit\<close>,
  which accepts exactly the circuits whose gates are all of the three kinds; for those,
  no later step of the construction raises \<open>ValueError\<close>.
\<close>

theorem construction_raises_exactly:
  "(new_instance c = Some (Inl ValueError)) =
     (\<exists>g \<in> set (map snd (gates c)).
         \<not> (gate_type g = INPUT
            \<or> (gate_type g = AND \<and> length (operands g) = 2)
            \<or> (gate_type g = NOT \<and> length (operands g) = 1)))
   \<and> check_circuit c =
     (if list_all (\<lambda>g. gate_type g = INPUT
                      \<or> (gate_type g = AND \<and> length (operands g) = 2)
                      \<or> (gate_type g = NOT \<and> length (operands g) = 1)) (map snd (gates c))
      then Inr () else Inl ValueError)"
proof -
  have 1: "check_circuit c =
      (if list_all gate_supported (map snd (gates c)) then Inr () else Inl ValueError)"
    by (simp add: check_circuit_def check_gates_eq)
  have 2: "(new_instance c = Some (Inl ValueError)) = (\<not> list_all gate_supported (map snd (gates c)))"
  proof (cases "list_all gate_supported (map snd (gates c))")
    case True
    with 1 tseytin_supported [OF True] init_gates_config_error show ?thesis
      by (auto simp: new_instance_def split: option.splits sum.splits)
  next
    case False
    with 1 show ?thesis by (simp add: new_instance_def)
  qed
  from 1 2 show ?thesis
    unfolding gate_supported_eq by (simp add: list_all_iff)
qed

lemma c8_facts:
  "new_instance dangling_circuit = Some (Inr unnumbered_instance)"
  "new_instance const_circuit = Some (Inl ValueError)"
  by code_simp+

text \<open>
  Claim C8 at two circuits: \<open>dangling_circuit\<close>, whose gates are INPUT, AND and NOT
  gates of the right arity and whose construction returns \<open>unnumbered_instance\<close>, and
  \<open>const_circuit\<close>, which holds a constant gate and whose construction raises.
\<close>

theorem construction_raises_exactly_witness:
  "new_instance dangling_circuit = Some (Inr unnumbered_instance)
   \<and> check_circuit dangling_circuit = Inr ()
   \<and> list_all (\<lambda>g. gate_type g = INPUT
                      \<or> (gate_type g = AND \<and> length (operands g) = 2)
                      \<or> (gate_type g = NOT \<and> length (operands g) = 1))
        (map snd (gates dangling_circuit))
   \<and> new_instance const_circuit = Some (Inl ValueError)
   \<and> (\<exists>g \<in> set (map snd (gates const_circuit)).
         \<not> (gate_type g = INPUT
            \<or> (gate_type g = AND \<and> length (operands g) = 2)
            \<or> (gate_type g = NOT \<and> length (operands g) = 1)))"
proof -
  note accepted = construction_raises_exactly [of dangling_circuit]
  note refused = construction_raises_exactly [of const_circuit]
  from accepted c8_facts(1) have
    "\<not> (\<exists>g \<in> set (map snd (gates dangling_circuit)).
         \<not> (gate_type g = INPUT
            \<or> (gate_type g = AND \<and> length (operands g) = 2)
            \<or> (gate_type g = NOT \<and> length (operands g) = 1)))"
    by simp
  then have all: "list_all (\<lambda>g. gate_type g = INPUT
                      \<or> (gate_type g = AND \<and> length (operands g) = 2)
                      \<or> (gate_type g = NOT \<and> length (operands g) = 1))
        (map snd (gates dangling_circuit))"
    unfolding list_all_iff by blast
  with accepted have ok: "check_circuit dangling_circuit = Inr ()"
    by simp
  from refused c8_facts(2) have
    "\<exists>g \<in> set (map snd (gates const_circuit)).
         \<not> (gate_type g = INPUT
            \<or> (gate_type g = AND \<and> length (operands g) = 2)
            \<or> (gate_type g = NOT \<and> length (operands g) = 1))"
    by simp
  with all ok c8_facts show ?thesis by blast
qed

text \<open>
  Claim C8 as stated fails: every gate of \<open>const_circuit\<close> is of a type the claim
  lists (it is a constant), and the construction raises \<open>ValueError\<close>.
\<close>

theorem constant_gate_rejected:
  "list_all (\<lambda>g. gate_type g = INPUT \<or> gate_type g = ALWAYS_TRUE \<or> gate_type g = ALWAYS_FALSE
                 \<or> (gate_type g = AND \<and> length (operands g) = 2)
                 \<or> (gate_type g = NOT \<and> length (operands g) = 1))
      (map snd (gates const_circuit))
   \<and> check_circuit const_circuit = Inl ValueError
   \<and> new_instance const_circuit = Some (Inl ValueError)"
  by code_simp
subsection \<open>The external conquer loop\<close>

text \<open>
  Claim C9 at a failing input. The one cube is the instance of \<open>contradiction_circuit\<close>;
  the external solver times out on it (or exits with a code other than 10 and 20). The
  loop prints UNKNOWN for the cube and the final answer is UNSAT.
\<close>

theorem external_unknown_reported_unsat:
  "from_circuit contradiction_circuit = Some (Inr (Some contradiction_instance))
   \<and> external_loop (\<lambda>_. TimeoutExpired) [contradiction_instance] = Inr (False, [''UNKNOWN''])
   \<and> external_final (\<lambda>_. TimeoutExpired) [contradiction_instance] = Inr ''UNSAT''
   \<and> external_final (\<lambda>_. Exited 1) [contradiction_instance] = Inr ''UNSAT''"
  by code_simp

subsection \<open>The status of a forced assignment\<close>

lemma propagate_false_ok:
  assumes "get_gate (circuit s) l = Inr g" "gate_type g = AND \<or> gate_type g = INPUT"
    and "assign_and_propagate s l False = Inr (st, s')"
  shows "st = OK"
  using assms
  by (subst (asm) assign_and_propagate.simps)
     (auto simp: is_constant_def Let_def split: sum.splits if_splits)

lemma assign_false_ok:
  assumes "get_gate (circuit s) l = Inr g" "gate_type g = AND \<or> gate_type g = INPUT"
    and "assign s l False = Inr (st, s')"
  shows "st = OK"
  using assms propagate_false_ok [OF assms(1,2)]
  by (auto simp: assign_def split: sum.splits if_splits)

lemma weight_gate_first_conflict:
  "assign s l False = Inr (CONFLICT, b) \<Longrightarrow>
   weight_gate s l = Inr \<lparr>weight = None, forced_value = Some True\<rparr>"
  by (simp add: weight_gate_def)

lemma weight_gate_not_forced_true:
  assumes "get_gate (circuit s) l = Inr g" "gate_type g = AND \<or> gate_type g = INPUT"
    and "weight_gate s l = Inr wr"
  shows "forced_value wr \<noteq> Some True"
proof (cases "assign s l False")
  case (Inl e)
  with assms(3) show ?thesis by (simp add: weight_gate_def)
next
  case (Inr p)
  obtain st b where p: "p = (st, b)" by (cases p)
  with Inr assign_false_ok [OF assms(1,2)] have "st = OK" by simp
  with Inr p assms(3) show ?thesis
    by (auto simp: weight_gate_def Let_def split: sum.splits if_splits)
qed

lemma rank_scores_types:
  "rank_scores c ls = Inr scores \<Longrightarrow> p \<in> set scores \<Longrightarrow>
   \<exists>g. get_gate c (snd p) = Inr g \<and> (gate_type g = AND \<or> gate_type g = INPUT)"
proof (induction ls arbitrary: scores)
  case Nil
  then show ?case by simp
next
  case (Cons l ls)
  then show ?case
    by (auto split: sum.splits if_splits)
qed

lemma set_py_slice_to: "set (py_slice_to xs k) \<subseteq> set xs"
  by (auto simp: py_slice_to_def dest: in_set_takeD)

lemma rank_candidates_types:
  assumes "rank_candidates k s = Inr cands" "l \<in> set cands"
  shows "\<exists>g. get_gate (circuit s) l = Inr g \<and> (gate_type g = AND \<or> gate_type g = INPUT)"
proof -
  from assms obtain scores where
    sc: "rank_scores (circuit s) (map fst (gates (circuit s))) = Inr scores"
    and c: "cands = map snd (py_slice_to (sort_key (\<lambda>x. - int (fst x)) scores) k)"
    by (auto simp: rank_candidates_def split: sum.splits)
  from assms(2) c obtain p where "p \<in> set scores" "snd p = l"
    using set_py_slice_to [of "sort_key (\<lambda>x. - int (fst x)) scores" k] by auto
  with rank_scores_types [OF sc] show ?thesis by blast
qed

lemma select_loop_forced:
  assumes "select_loop s best bw ls = Inr sel" "sel_forced_value sel = Some fv"
    and "\<And>l. l \<in> set ls \<Longrightarrow>
           \<exists>g. get_gate (circuit s) l = Inr g \<and> (gate_type g = AND \<or> gate_type g = INPUT)"
  shows "fv = False \<and> sel_label sel \<in> set ls"
  using assms
proof (induction ls arbitrary: best bw)
  case Nil
  then show ?case by (auto split: option.splits)
next
  case (Cons l ls)
  from Cons.prems(1) obtain wr where wr: "weight_gate s l = Inr wr"
    by (auto split: sum.splits)
  from Cons.prems(3) [of l] obtain g where
    g: "get_gate (circuit s) l = Inr g" "gate_type g = AND \<or> gate_type g = INPUT" by auto
  show ?case
  proof (cases "forced_value wr")
    case None
    with Cons.prems(1) wr obtain best' bw' where "select_loop s best' bw' ls = Inr sel"
      by (auto split: option.splits if_splits)
    from Cons.IH [OF this Cons.prems(2)] Cons.prems(3) show ?thesis by auto
  next
    case (Some b)
    with Cons.prems(1,2) wr have "sel_label sel = l" "fv = b" by auto
    with weight_gate_not_forced_true [OF g wr] Some show ?thesis by auto
  qed
qed

lemma forced_selection_false_ok:
  assumes "select_gate k s = Inr (Some sel)" "sel_forced_value sel = Some fv"
  shows "fv = False" and "assign s (sel_label sel) fv = Inr (st, s') \<Longrightarrow> st = OK"
proof -
  from assms(1) obtain cands where c: "rank_candidates k s = Inr cands"
    and l: "select_loop s None 0 cands = Inr sel"
    by (auto simp: select_gate_def split: sum.splits if_splits)
  from select_loop_forced [OF l assms(2)] rank_candidates_types [OF c]
  have f: "fv = False" and m: "sel_label sel \<in> set cands" by blast+
  from f show "fv = False" .
  from rank_candidates_types [OF c m] obtain g where
    g: "get_gate (circuit s) (sel_label sel) = Inr g" "gate_type g = AND \<or> gate_type g = INPUT"
    by blast
  assume "assign s (sel_label sel) fv = Inr (st, s')"
  with f assign_false_ok [OF g] show "st = OK" by simp
qed

text \<open>
  Claim C10, as the code has it. \<open>_weight_gate\<close> tests the value false first and returns
  at the first conflict, and \<open>_cube\<close> drops the status of the forced assignment. But a
  candidate is an INPUT or an AND gate, and assigning false to such a gate never
  conflicts: a forced value is always false, applying it returns OK, and no CONFLICT
  is dropped on this path.
\<close>

theorem forced_value_never_conflicts:
  assumes "select_gate k s = Inr (Some sel)" "sel_forced_value sel = Some fv"
  shows "fv = False
     \<and> (\<forall>st s'. assign s (sel_label sel) fv = Inr (st, s') \<longrightarrow>
           st = OK
           \<and> (\<not> should_stop max_depth s depth \<longrightarrow>
                cube_rec max_depth k s depth = cube_rec max_depth k s' (depth + 1)))
     \<and> (\<forall>l b. assign s l False = Inr (CONFLICT, b) \<longrightarrow>
           weight_gate s l = Inr \<lparr>weight = None, forced_value = Some True\<rparr>)"
proof -
  have "cube_rec max_depth k s depth = cube_rec max_depth k s' (depth + 1)"
    if "assign s (sel_label sel) fv = Inr (st, s')" "\<not> should_stop max_depth s depth" for st s'
    by (subst cube_rec.simps) (simp add: assms that)
  with forced_selection_false_ok [OF assms] weight_gate_first_conflict show ?thesis
    by blast
qed

lemma c10_facts:
  "select_gate 10 contradiction_instance
     = Inr (Some \<lparr>sel_label = ''a'', sel_forced_value = Some False\<rparr>)"
  "assign contradiction_instance ''a'' False = Inr (OK, forced_applied_instance)"
  "\<not> should_stop 2 contradiction_instance 0"
  by code_simp+

text \<open>Claim C10 (amended) at \<open>contradiction_instance\<close>, with \<open>max_depth = 2\<close>.\<close>

theorem forced_value_never_conflicts_witness:
  "select_gate 10 contradiction_instance
     = Inr (Some \<lparr>sel_label = ''a'', sel_forced_value = Some False\<rparr>)
   \<and> assign contradiction_instance ''a'' False = Inr (OK, forced_applied_instance)
   \<and> cube_rec 2 10 contradiction_instance 0 = cube_rec 2 10 forced_applied_instance (0 + 1)"
  using forced_value_never_conflicts [of 10 contradiction_instance
      "\<lparr>sel_label = ''a'', sel_forced_value = Some False\<rparr>" False 2 0]
    c10_facts
  by simp

text \<open>
  Claim C10 as stated fails: there is no instance for which the forced value that gate
  selection returns conflicts when it is applied.
\<close>

theorem ignored_conflict_counterexample:
  "\<not> (\<exists>k s sel fv s'. select_gate k s = Inr (Some sel) \<and> sel_forced_value sel = Some fv
         \<and> assign s (sel_label sel) fv = Inr (CONFLICT, s'))"
  using forced_selection_false_ok(2) by blast

end
